theory Spec2Isabelle
  imports Complex_Main "HOL-Library.Word" "HOL-Library.Log_Nat" "HOL-Library.Multiset"
    "HOL-Library.Monad_Syntax"
begin

unbundle bit_operations_syntax

section \<open>Data model\<close>

text \<open>
  The header \<^verbatim>\<open>parallel_natural_merge_sort.h\<close> is embedded function by function.
  Values of type \<^verbatim>\<open>size_t\<close> are 64-bit words, so every arithmetic operation on them wraps
  the way the C++ does.  A random-access iterator is a position in one of two arrays: the
  array of the caller and the scratch array obtained with \<^verbatim>\<open>new value_type[length]\<close>.
  The memory is a function from the array to its contents.
\<close>

type_synonym size_t = "64 word"

datatype block = Caller | Scratch

type_synonym iter = "block \<times> nat"

type_synonym 'a heap = "block \<Rightarrow> 'a list"

definition it_add :: "iter \<Rightarrow> nat \<Rightarrow> iter" where
  "it_add p k = (fst p, snd p + k)"

definition it_sub :: "iter \<Rightarrow> nat \<Rightarrow> iter" where
  "it_sub p k = (fst p, snd p - k)"

definition it_less :: "iter \<Rightarrow> iter \<Rightarrow> bool" where
  "it_less p q = (snd p < snd q)"

definition distance :: "iter \<Rightarrow> iter \<Rightarrow> nat" where
  "distance f l = snd l - snd f"

definition deref :: "'a heap \<Rightarrow> iter \<Rightarrow> 'a" where
  "deref h p = h (fst p) ! snd p"

text \<open>The elements of the range \<open>[f, l)\<close>, and the heap after writing a list of values from
  position \<open>d\<close> on.\<close>

definition range_of :: "'a heap \<Rightarrow> iter \<Rightarrow> iter \<Rightarrow> 'a list" where
  "range_of h f l = take (distance f l) (drop (snd f) (h (fst f)))"

definition write_range :: "'a heap \<Rightarrow> iter \<Rightarrow> 'a list \<Rightarrow> 'a heap" where
  "write_range h d vs =
     h (fst d := take (snd d) (h (fst d)) @ vs @ drop (snd d + length vs) (h (fst d)))"

text \<open>\<^verbatim>\<open>new value_type[length]\<close> leaves the cells indeterminate: the contents are given by
  an arbitrary function \<open>uninit\<close> from the index to the value found there.\<close>

definition new_array :: "(nat \<Rightarrow> 'a) \<Rightarrow> nat \<Rightarrow> 'a list" where
  "new_array uninit n = map uninit [0..<n]"

section \<open>The standard algorithms the header calls\<close>

text \<open>\<^verbatim>\<open>std::merge\<close> on two ranges: the element of the second range is taken only when the
  comparator puts it strictly before the element of the first range.\<close>

fun merge_runs :: "('a \<Rightarrow> 'a \<Rightarrow> bool) \<Rightarrow> 'a list \<Rightarrow> 'a list \<Rightarrow> 'a list" where
  "merge_runs cmp [] ys = ys"
| "merge_runs cmp xs [] = xs"
| "merge_runs cmp (x # xs) (y # ys) =
     (if cmp y x then y # merge_runs cmp (x # xs) ys else x # merge_runs cmp xs (y # ys))"

definition std_merge ::
  "'a heap \<Rightarrow> iter \<Rightarrow> iter \<Rightarrow> iter \<Rightarrow> iter \<Rightarrow> iter \<Rightarrow> ('a \<Rightarrow> 'a \<Rightarrow> bool) \<Rightarrow> 'a heap" where
  "std_merge h first1 last1 first2 last2 d_first cmp =
     write_range h d_first (merge_runs cmp (range_of h first1 last1) (range_of h first2 last2))"

definition std_copy :: "'a heap \<Rightarrow> iter \<Rightarrow> iter \<Rightarrow> iter \<Rightarrow> 'a heap" where
  "std_copy h f l d_first = write_range h d_first (range_of h f l)"

definition std_reverse :: "'a heap \<Rightarrow> iter \<Rightarrow> iter \<Rightarrow> 'a heap" where
  "std_reverse h f l = write_range h f (rev (range_of h f l))"

section \<open>UnsafeIntQueue\<close>

record UnsafeIntQueue =
  m_head :: size_t
  m_tail :: size_t
  m_size :: size_t
  m_mask :: size_t
  m_buffer :: "size_t list"

definition MINIMUM_CAPACITY :: size_t where
  "MINIMUM_CAPACITY = 256"

text \<open>The loop of \<^verbatim>\<open>fixCapacity\<close> shifts \<open>s\<close> to the left until it reaches the capacity. On
  64-bit words the shift can push the only set bit out, after which the loop never ends, so
  the loop is a partial function and \<open>None\<close> stands for not returning.\<close>

partial_function (option) fixCapacity_loop :: "size_t \<Rightarrow> size_t \<Rightarrow> size_t option" where
  "fixCapacity_loop capacity s =
     (if s < capacity then fixCapacity_loop capacity (push_bit 1 s) else Some s)"

declare fixCapacity_loop.simps [code]

definition fixCapacity :: "size_t \<Rightarrow> size_t option" where
  "fixCapacity capacity = fixCapacity_loop (max capacity MINIMUM_CAPACITY) 1"

text \<open>The constructor. The cells of the backing array are indeterminate in the C++; they are
  zero here, and no cell is read before \<open>enqueue\<close> has written it.\<close>

definition new_UnsafeIntQueue :: "size_t \<Rightarrow> UnsafeIntQueue option" where
  "new_UnsafeIntQueue capacity =
     (case fixCapacity capacity of
        None \<Rightarrow> None
      | Some c \<Rightarrow>
          Some \<lparr>m_head = 0, m_tail = 0, m_size = 0, m_mask = c - 1,
                m_buffer = replicate (unat c) 0\<rparr>)"

definition enqueue :: "UnsafeIntQueue \<Rightarrow> size_t \<Rightarrow> UnsafeIntQueue" where
  "enqueue q element =
     q\<lparr>m_buffer := (m_buffer q)[unat (m_tail q AND m_mask q) := element],
       m_tail := (m_tail q + 1) AND m_mask q,
       m_size := m_size q + 1\<rparr>"

definition dequeue :: "UnsafeIntQueue \<Rightarrow> size_t \<times> UnsafeIntQueue" where
  "dequeue q =
     (m_buffer q ! unat (m_head q),
      q\<lparr>m_head := (m_head q + 1) AND m_mask q, m_size := m_size q - 1\<rparr>)"

definition queue_size :: "UnsafeIntQueue \<Rightarrow> size_t" where
  "queue_size q = m_size q"

section \<open>build_run_size_queue\<close>

text \<open>The two inner loops advance \<open>left\<close> and \<open>right\<close> over a strictly descending and over
  an ascending run.\<close>

function scan_descending ::
  "('a \<Rightarrow> 'a \<Rightarrow> bool) \<Rightarrow> 'a heap \<Rightarrow> iter \<Rightarrow> iter \<Rightarrow> iter \<Rightarrow> iter \<times> iter" where
  "scan_descending cmp h lst left right =
     (if it_less left lst \<and> cmp (deref h right) (deref h left)
      then scan_descending cmp h lst (it_add left 1) (it_add right 1)
      else (left, right))"
  by pat_completeness auto
termination
  by (relation "measure (\<lambda>(cmp, h, lst, left, right). snd lst - snd left)")
     (auto simp: it_less_def it_add_def)

declare scan_descending.simps [simp del]

function scan_ascending ::
  "('a \<Rightarrow> 'a \<Rightarrow> bool) \<Rightarrow> 'a heap \<Rightarrow> iter \<Rightarrow> iter \<Rightarrow> iter \<Rightarrow> iter \<times> iter" where
  "scan_ascending cmp h lst left right =
     (if it_less left lst \<and> \<not> cmp (deref h right) (deref h left)
      then scan_ascending cmp h lst (it_add left 1) (it_add right 1)
      else (left, right))"
  by pat_completeness auto
termination
  by (relation "measure (\<lambda>(cmp, h, lst, left, right). snd lst - snd left)")
     (auto simp: it_less_def it_add_def)

declare scan_ascending.simps [simp del]

text \<open>One round of the outer loop: the state is the memory, the queue and the two
  cursors.\<close>

type_synonym 'a scan_state = "'a heap \<times> UnsafeIntQueue \<times> iter \<times> iter"

definition scan_body :: "('a \<Rightarrow> 'a \<Rightarrow> bool) \<Rightarrow> iter \<Rightarrow> 'a scan_state \<Rightarrow> 'a scan_state" where
  "scan_body cmp lst st =
     (case st of (h, q, left, right) \<Rightarrow>
        let head = left in
        if cmp (deref h right) (deref h left)
        then (case scan_descending cmp h lst (it_add left 1) (it_add right 1) of
                (left', right') \<Rightarrow>
                  let q' = enqueue q (of_nat (distance head right'));
                      h' = std_reverse h head right'
                  in (h', q', it_add left' 1, it_add right' 1))
        else (case scan_ascending cmp h lst (it_add left 1) (it_add right 1) of
                (left', right') \<Rightarrow>
                  let q' = enqueue q (of_nat (distance head left' + 1))
                  in (h, q', it_add left' 1, it_add right' 1)))"

lemma scan_descending_left: "snd left \<le> snd (fst (scan_descending cmp h lst left right))"
proof (induction cmp h lst left right rule: scan_descending.induct)
  case (1 cmp h lst left right)
  then show ?case
    by (subst scan_descending.simps) (auto simp: it_add_def)
qed

lemma scan_ascending_left: "snd left \<le> snd (fst (scan_ascending cmp h lst left right))"
proof (induction cmp h lst left right rule: scan_ascending.induct)
  case (1 cmp h lst left right)
  then show ?case
    by (subst scan_ascending.simps) (auto simp: it_add_def)
qed

lemma scan_body_left:
  "scan_body cmp lst (h, q, left, right) = (h', q', left', right') \<Longrightarrow> snd left < snd left'"
  using scan_descending_left [of "it_add left 1" cmp h lst "it_add right 1"]
        scan_ascending_left [of "it_add left 1" cmp h lst "it_add right 1"]
  by (auto simp: scan_body_def Let_def it_add_def split: if_splits prod.splits)

function scan_loop :: "('a \<Rightarrow> 'a \<Rightarrow> bool) \<Rightarrow> iter \<Rightarrow> 'a scan_state \<Rightarrow> 'a scan_state" where
  "scan_loop cmp lst (h, q, left, right) =
     (if it_less left lst then scan_loop cmp lst (scan_body cmp lst (h, q, left, right))
      else (h, q, left, right))"
  by pat_completeness auto
termination
proof (relation "measure (\<lambda>(cmp, lst, h, q, left, right). snd lst - snd left)")
  show "wf (measure (\<lambda>(cmp :: 'a \<Rightarrow> 'a \<Rightarrow> bool, lst :: iter, h :: 'a heap,
                         q :: UnsafeIntQueue, left :: iter, right :: iter). snd lst - snd left))"
    by simp
next
  fix cmp :: "'a \<Rightarrow> 'a \<Rightarrow> bool" and lst left right :: iter and h :: "'a heap"
    and q :: UnsafeIntQueue
  assume less: "it_less left lst"
  obtain h' q' left' right' where
    body: "scan_body cmp lst (h, q, left, right) = (h', q', left', right')"
    by (metis prod_cases4)
  from scan_body_left [OF body] less
  show "((cmp, lst, scan_body cmp lst (h, q, left, right)), (cmp, lst, h, q, left, right))
          \<in> measure (\<lambda>(cmp, lst, h, q, left, right). snd lst - snd left)"
    by (simp add: body it_less_def)
qed

declare scan_loop.simps [simp del]

text \<open>The function itself. It returns the memory, in which the descending runs are
  reversed, and the queue.\<close>

definition build_run_size_queue ::
  "('a \<Rightarrow> 'a \<Rightarrow> bool) \<Rightarrow> 'a heap \<Rightarrow> iter \<Rightarrow> iter \<Rightarrow> ('a heap \<times> UnsafeIntQueue) option" where
  "build_run_size_queue cmp h first last' =
     (let len = (of_nat (distance first last') :: size_t) in
      case new_UnsafeIntQueue (len div 2 + 1) of
        None \<Rightarrow> None
      | Some p_q \<Rightarrow>
          let left = first;
              right = it_add left 1;
              lst = it_sub last' 1
          in (case scan_loop cmp lst (h, p_q, left, right) of
                (h', q', left', right') \<Rightarrow>
                  if left' = lst then Some (h', enqueue q' 1) else Some (h', q')))"

section \<open>leading_zeros and get_pass_amount\<close>

function leading_zeros_loop :: "size_t \<Rightarrow> size_t \<Rightarrow> size_t \<Rightarrow> size_t" where
  "leading_zeros_loop num t cnt =
     (if t \<noteq> 0
      then (if t AND num \<noteq> 0 then cnt
            else leading_zeros_loop num (drop_bit 1 t) (cnt + 1))
      else cnt)"
  by pat_completeness auto
termination
proof (relation "measure (\<lambda>(num, t, cnt). unat t)")
  show "wf (measure (\<lambda>(num :: size_t, t :: size_t, cnt :: size_t). unat t))"
    by simp
next
  fix num t cnt :: size_t
  assume "t \<noteq> 0"
  then have "0 < unat t"
    by (simp add: unat_gt_0)
  then have "unat t div 2 < unat t"
    by simp
  then show "((num, drop_bit 1 t, cnt + 1), (num, t, cnt)) \<in> measure (\<lambda>(num, t, cnt). unat t)"
    by (simp add: unat_drop_bit_eq drop_bit_eq_div unat_div)
qed

declare leading_zeros_loop.simps [simp del]

definition leading_zeros :: "size_t \<Rightarrow> size_t" where
  "leading_zeros num = leading_zeros_loop num (push_bit (8 * 8 - 1) 1) 0"

definition get_pass_amount :: "size_t \<Rightarrow> size_t" where
  "get_pass_amount run_amount = 8 * 8 - leading_zeros (run_amount - 1)"

section \<open>natural_merge_sort_impl\<close>

record 'a sort_state =
  heap :: "'a heap"
  queue :: UnsafeIntQueue
  source :: iter
  target :: iter
  runs_left :: size_t
  offset :: size_t

text \<open>One round of the merge loop, the \<^verbatim>\<open>switch\<close> with its fall-through included.\<close>

definition merge_step :: "('a \<Rightarrow> 'a \<Rightarrow> bool) \<Rightarrow> 'a sort_state \<Rightarrow> 'a sort_state" where
  "merge_step cmp st =
     (case dequeue (queue st) of (left_run_length, q1) \<Rightarrow>
      case dequeue q1 of (right_run_length, q2) \<Rightarrow>
        let src = it_add (source st) (unat (offset st));
            h1 = std_merge (heap st)
                   src
                   (it_add src (unat left_run_length))
                   (it_add src (unat left_run_length))
                   (it_add (it_add src (unat left_run_length)) (unat right_run_length))
                   (it_add (target st) (unat (offset st)))
                   cmp;
            q3 = enqueue q2 (left_run_length + right_run_length);
            runs_left' = runs_left st - 2;
            offset' = offset st + (left_run_length + right_run_length)
        in if runs_left' = 1
           then (case dequeue q3 of (single_length, q4) \<Rightarrow>
                   let src' = it_add (source st) (unat offset');
                       h2 = std_copy h1 src' (it_add src' (unat single_length))
                              (it_add (target st) (unat offset'));
                       q5 = enqueue q4 single_length
                   in \<lparr>heap = h2, queue = q5, source = target st, target = source st,
                       runs_left = queue_size q5, offset = 0\<rparr>)
           else if runs_left' = 0
           then \<lparr>heap = h1, queue = q3, source = target st, target = source st,
                 runs_left = queue_size q3, offset = 0\<rparr>
           else \<lparr>heap = h1, queue = q3, source = source st, target = target st,
                 runs_left = runs_left', offset = offset'\<rparr>)"

lemma merge_step_size:
  "1 < queue_size (queue st) \<Longrightarrow>
   unat (queue_size (queue (merge_step cmp st))) < unat (queue_size (queue st))"
proof -
  assume gt: "1 < queue_size (queue st)"
  have eq: "queue_size (queue (merge_step cmp st)) = queue_size (queue st) - 1"
    by (simp add: merge_step_def queue_size_def dequeue_def enqueue_def Let_def
        split: prod.splits)
  from gt have "queue_size (queue st) \<noteq> 0"
    by auto
  then have "unat (queue_size (queue st) - 1) < unat (queue_size (queue st))"
    by (simp add: unat_minus_one unat_gt_0)
  with eq show ?thesis
    by simp
qed

function merge_loop :: "('a \<Rightarrow> 'a \<Rightarrow> bool) \<Rightarrow> 'a sort_state \<Rightarrow> 'a sort_state" where
  "merge_loop cmp st =
     (if 1 < queue_size (queue st) then merge_loop cmp (merge_step cmp st) else st)"
  by pat_completeness auto
termination
  by (relation "measure (\<lambda>(cmp, st). unat (queue_size (queue st)))")
     (auto simp: merge_step_size)

declare merge_loop.simps [simp del]

text \<open>The state in which the merge loop starts: the number of passes decides which array
  is the first source, and the input is copied to the buffer when that number is odd.\<close>

definition initial_state ::
  "'a heap \<Rightarrow> UnsafeIntQueue \<Rightarrow> iter \<Rightarrow> iter \<Rightarrow> iter \<Rightarrow> 'a sort_state" where
  "initial_state h p_queue first last' buffer =
     (let merge_passes = get_pass_amount (queue_size p_queue) in
      if merge_passes AND 1 = 1
      then \<lparr>heap = std_copy h first last' buffer, queue = p_queue,
            source = buffer, target = first,
            runs_left = queue_size p_queue, offset = 0\<rparr>
      else \<lparr>heap = h, queue = p_queue,
            source = first, target = buffer,
            runs_left = queue_size p_queue, offset = 0\<rparr>)"

definition natural_merge_sort_impl ::
  "('a \<Rightarrow> 'a \<Rightarrow> bool) \<Rightarrow> 'a heap \<Rightarrow> iter \<Rightarrow> iter \<Rightarrow> iter \<Rightarrow> 'a heap option" where
  "natural_merge_sort_impl cmp h first last' buffer =
     (let len = (of_nat (distance first last') :: size_t) in
      if len < 2 then Some h
      else (case build_run_size_queue cmp h first last' of
              None \<Rightarrow> None
            | Some (h', p_queue) \<Rightarrow>
                Some (heap (merge_loop cmp (initial_state h' p_queue first last' buffer)))))"

section \<open>natural_merge_sort\<close>

text \<open>The sequential entry point allocates the buffer, sorts and releases the buffer.\<close>

definition natural_merge_sort ::
  "(nat \<Rightarrow> 'a) \<Rightarrow> ('a \<Rightarrow> 'a \<Rightarrow> bool) \<Rightarrow> 'a heap \<Rightarrow> iter \<Rightarrow> iter \<Rightarrow> 'a heap option" where
  "natural_merge_sort uninit cmp h first last' =
     (let len = (of_nat (distance first last') :: size_t) in
      if len < 2 then Some h
      else (let h1 = h (Scratch := new_array uninit (unat len));
                buffer = (Scratch, 0)
            in case natural_merge_sort_impl cmp h1 first last' buffer of
                 None \<Rightarrow> None
               | Some h2 \<Rightarrow> Some (h2 (Scratch := []))))"

section \<open>parallel_natural_merge_sort\<close>

text \<open>The two halves are sorted by two threads that are joined before the merge. Each
  thread reads and writes only its own half of the two arrays, so the result is that of
  running the left half first and the right half second, which is what the model does.
  A thread quota of zero makes the C++ recurse without end; \<open>None\<close> stands for that.\<close>

partial_function (option) parallel_natural_merge_sort_impl ::
  "('a \<Rightarrow> 'a \<Rightarrow> bool) \<Rightarrow> 'a heap \<Rightarrow> iter \<Rightarrow> iter \<Rightarrow> size_t \<Rightarrow> size_t \<Rightarrow> 'a heap option" where
  "parallel_natural_merge_sort_impl cmp h source' target' len thread_quota =
     (if thread_quota = 1
      then natural_merge_sort_impl cmp h target' (it_add target' (unat len)) source'
      else
        let left_quota = thread_quota div 2;
            right_quota = thread_quota - left_quota;
            left_length = len div 2
        in if thread_quota = 2
           then do {
             h1 \<leftarrow> natural_merge_sort_impl cmp h source'
                     (it_add source' (unat left_length)) target';
             h2 \<leftarrow> natural_merge_sort_impl cmp h1
                     (it_add source' (unat left_length))
                     (it_add source' (unat len))
                     (it_add target' (unat left_length));
             Some (std_merge h2 source'
                     (it_add source' (unat left_length))
                     (it_add source' (unat left_length))
                     (it_add source' (unat len))
                     target' cmp)
           }
           else do {
             h1 \<leftarrow> parallel_natural_merge_sort_impl cmp h target' source'
                     left_length left_quota;
             h2 \<leftarrow> parallel_natural_merge_sort_impl cmp h1
                     (it_add target' (unat left_length))
                     (it_add source' (unat left_length))
                     (len - left_length) right_quota;
             Some (std_merge h2 source'
                     (it_add source' (unat left_length))
                     (it_add source' (unat left_length))
                     (it_add source' (unat len))
                     target' cmp)
           })"

declare parallel_natural_merge_sort_impl.simps [code]

definition MINIMUM_THREAD_LOAD :: size_t where
  "MINIMUM_THREAD_LOAD = push_bit 14 1"

text \<open>The parallel entry point. \<open>cores\<close> is what \<^verbatim>\<open>std::thread::hardware_concurrency()\<close>
  returns. The buffer is not released.\<close>

definition parallel_natural_merge_sort ::
  "size_t \<Rightarrow> (nat \<Rightarrow> 'a) \<Rightarrow> ('a \<Rightarrow> 'a \<Rightarrow> bool) \<Rightarrow> 'a heap \<Rightarrow> iter \<Rightarrow> iter \<Rightarrow> 'a heap option" where
  "parallel_natural_merge_sort cores uninit cmp h begin' end' =
     (let len = (of_nat (distance begin' end') :: size_t);
          spawn = min cores (len div MINIMUM_THREAD_LOAD)
      in if spawn < 2 then natural_merge_sort uninit cmp h begin' end'
         else
           (let h1 = h (Scratch := new_array uninit (unat len));
                buffer = (Scratch, 0);
                h2 = std_copy h1 begin' end' buffer
            in parallel_natural_merge_sort_impl cmp h2 buffer begin' len spawn))"

section \<open>Notions used in the statements and proofs\<close>

definition strict_weak_order :: "('a \<Rightarrow> 'a \<Rightarrow> bool) \<Rightarrow> bool" where
  "strict_weak_order cmp \<longleftrightarrow>
     (\<forall>x. \<not> cmp x x)
     \<and> (\<forall>x y z. cmp x y \<longrightarrow> cmp y z \<longrightarrow> cmp x z)
     \<and> (\<forall>x y z. \<not> cmp x y \<and> \<not> cmp y x \<longrightarrow> \<not> cmp y z \<and> \<not> cmp z y \<longrightarrow> \<not> cmp x z \<and> \<not> cmp z x)"

definition equiv_under :: "('a \<Rightarrow> 'a \<Rightarrow> bool) \<Rightarrow> 'a \<Rightarrow> 'a \<Rightarrow> bool" where
  "equiv_under cmp a b \<longleftrightarrow> \<not> cmp a b \<and> \<not> cmp b a"

definition non_decreasing :: "('a \<Rightarrow> 'a \<Rightarrow> bool) \<Rightarrow> 'a list \<Rightarrow> bool" where
  "non_decreasing cmp xs = sorted_wrt (\<lambda>a b. \<not> cmp b a) xs"

fun insert_stable :: "('a \<Rightarrow> 'a \<Rightarrow> bool) \<Rightarrow> 'a \<Rightarrow> 'a list \<Rightarrow> 'a list" where
  "insert_stable cmp x [] = [x]"
| "insert_stable cmp x (y # ys) = (if cmp y x then y # insert_stable cmp x ys else x # y # ys)"

fun stable_sorted :: "('a \<Rightarrow> 'a \<Rightarrow> bool) \<Rightarrow> 'a list \<Rightarrow> 'a list" where
  "stable_sorted cmp [] = []"
| "stable_sorted cmp (x # xs) = insert_stable cmp x (stable_sorted cmp xs)"

definition capacity :: "UnsafeIntQueue \<Rightarrow> nat" where
  "capacity q = length (m_buffer q)"

definition queue_inv :: "UnsafeIntQueue \<Rightarrow> bool" where
  "queue_inv q \<longleftrightarrow>
     (\<exists>k<64. capacity q = 2 ^ k \<and> m_mask q = 2 ^ k - 1)
     \<and> unat (m_head q) < capacity q
     \<and> unat (m_size q) \<le> capacity q
     \<and> unat (m_tail q) = (unat (m_head q) + unat (m_size q)) mod capacity q"

definition pending :: "UnsafeIntQueue \<Rightarrow> size_t list" where
  "pending q =
     map (\<lambda>i. m_buffer q ! ((unat (m_head q) + i) mod capacity q)) [0..<unat (m_size q)]"

text \<open>The values that \<open>n\<close> calls of \<open>dequeue\<close> return, in order.\<close>

fun dequeue_n :: "nat \<Rightarrow> UnsafeIntQueue \<Rightarrow> size_t list" where
  "dequeue_n 0 q = []"
| "dequeue_n (Suc n) q = (case dequeue q of (x, q') \<Rightarrow> x # dequeue_n n q')"

fun split_run :: "('a \<Rightarrow> 'a \<Rightarrow> bool) \<Rightarrow> 'a \<Rightarrow> 'a list \<Rightarrow> 'a list \<times> 'a list" where
  "split_run P x [] = ([x], [])"
| "split_run P x (y # ys) =
     (if P x y then (case split_run P y ys of (r, rest) \<Rightarrow> (x # r, rest)) else ([x], y # ys))"

lemma split_run_append: "split_run P x ys = (r, rest) \<Longrightarrow> r @ rest = x # ys"
  by (induction ys arbitrary: x r rest) (auto split: if_splits prod.splits)

lemma split_run_length: "length (snd (split_run P x ys)) \<le> length ys"
proof (induction ys arbitrary: x)
  case Nil
  then show ?case by simp
next
  case (Cons y ys)
  from Cons [of y] show ?case
    by (cases "split_run P y ys") auto
qed

function natural_runs :: "('a \<Rightarrow> 'a \<Rightarrow> bool) \<Rightarrow> 'a list \<Rightarrow> 'a list list" where
  "natural_runs cmp [] = []"
| "natural_runs cmp [x] = [[x]]"
| "natural_runs cmp (x # y # ys) =
     (case split_run (if cmp y x then (\<lambda>a b. cmp b a) else (\<lambda>a b. \<not> cmp b a)) y ys of
        (r, rest) \<Rightarrow> (x # r) # natural_runs cmp rest)"
  by pat_completeness auto
termination
  apply (relation "measure (\<lambda>(cmp, xs). length xs)")
   apply simp
  apply (simp add: less_Suc_eq_le)
  apply (metis split_run_length snd_conv le_SucI)
  done

definition ascending_form :: "('a \<Rightarrow> 'a \<Rightarrow> bool) \<Rightarrow> 'a list \<Rightarrow> 'a list" where
  "ascending_form cmp r =
     (case r of x # y # zs \<Rightarrow> if cmp y x then rev r else r | _ \<Rightarrow> r)"

definition finish_scan :: "iter \<Rightarrow> 'a scan_state \<Rightarrow> 'a heap \<times> UnsafeIntQueue" where
  "finish_scan lst st =
     (case st of (h, q, left, right) \<Rightarrow> if left = lst then (h, enqueue q 1) else (h, q))"

abbreviation run_len :: "'a list \<Rightarrow> size_t" where
  "run_len r \<equiv> of_nat (length r)"

function merge_trace :: "('a \<Rightarrow> 'a \<Rightarrow> bool) \<Rightarrow> 'a sort_state \<Rightarrow> 'a sort_state list" where
  "merge_trace cmp st =
     st # (if 1 < queue_size (queue st) then merge_trace cmp (merge_step cmp st) else [])"
  by pat_completeness auto
termination
  by (relation "measure (\<lambda>(cmp, st). unat (queue_size (queue st)))")
     (auto simp: merge_step_size)

declare merge_trace.simps [simp del]

definition merged_once :: "('a \<Rightarrow> 'a \<Rightarrow> bool) \<Rightarrow> 'a list list \<Rightarrow> 'a list list \<Rightarrow> bool" where
  "merged_once cmp cs cs' \<longleftrightarrow>
     (\<exists>a t u b. cs = a @ t # u # b \<and> cs' = a @ merge_runs cmp t u # b)"

definition passes_left :: "nat \<Rightarrow> nat \<Rightarrow> nat" where
  "passes_left d t = (if t < 2 then ceillog2 (d + t) else Suc (ceillog2 (d + (t + 1) div 2)))"

definition merge_inv ::
  "('a \<Rightarrow> 'a \<Rightarrow> bool) \<Rightarrow> iter \<Rightarrow> iter \<Rightarrow> (block \<Rightarrow> 'a list) \<Rightarrow> (block \<Rightarrow> 'a list) \<Rightarrow>
   'a sort_state \<Rightarrow> 'a list list \<Rightarrow> 'a list list \<Rightarrow> bool" where
  "merge_inv cmp first buffer pre post st done todo \<longleftrightarrow>
     fst first \<noteq> fst buffer
     \<and> length (pre (fst first)) = snd first \<and> length (pre (fst buffer)) = snd buffer
     \<and> ((source st = first \<and> target st = buffer) \<or> (source st = buffer \<and> target st = first))
     \<and> (\<exists>S0 T1.
           heap st (fst (source st)) =
             pre (fst (source st)) @ (S0 @ concat todo)
               @ post (fst (source st))
         \<and> heap st (fst (target st)) =
             pre (fst (target st)) @ (concat done @ T1)
               @ post (fst (target st))
         \<and> length S0 = length (concat done) \<and> length T1 = length (concat todo))
     \<and> length (concat done) + length (concat todo) < 2 ^ 64
     \<and> queue_inv (queue st)
     \<and> pending (queue st) = map run_len todo @ map run_len done
     \<and> unat (runs_left st) = length todo
     \<and> unat (offset st) = length (concat done)
     \<and> todo \<noteq> [] \<and> (done \<noteq> [] \<longrightarrow> 2 \<le> length todo)
     \<and> (source st = first \<longleftrightarrow> even (passes_left (length done) (length todo)))"

text \<open>Every run is strictly descending, with at least two elements, or ascending.\<close>

definition descending_run :: "('a \<Rightarrow> 'a \<Rightarrow> bool) \<Rightarrow> 'a list \<Rightarrow> bool" where
  "descending_run cmp r \<longleftrightarrow> 2 \<le> length r \<and> successively (\<lambda>a b. cmp b a) r"

definition ascending_run :: "('a \<Rightarrow> 'a \<Rightarrow> bool) \<Rightarrow> 'a list \<Rightarrow> bool" where
  "ascending_run cmp r \<longleftrightarrow> r \<noteq> [] \<and> successively (\<lambda>a b. \<not> cmp b a) r"

text \<open>No run can take the first element of the next run: a run that is not the last has two
  elements at least, and the element after a descending run is not below its last element,
  the element after an ascending run is below its last element.\<close>

fun maximal_runs :: "('a \<Rightarrow> 'a \<Rightarrow> bool) \<Rightarrow> 'a list list \<Rightarrow> bool" where
  "maximal_runs cmp [] = True"
| "maximal_runs cmp [r] = True"
| "maximal_runs cmp (r # s # rs) =
     (2 \<le> length r
      \<and> (if cmp (r ! 1) (r ! 0) then \<not> cmp (hd s) (last r) else cmp (hd s) (last r))
      \<and> maximal_runs cmp (s # rs))"

text \<open>What a sort of \<open>xs\<close> may leave in the range: a permutation of \<open>xs\<close> that, when the
  comparator is a strict weak order, is the stable sorted arrangement of \<open>xs\<close>.\<close>

definition sort_result :: "('a \<Rightarrow> 'a \<Rightarrow> bool) \<Rightarrow> 'a list \<Rightarrow> 'a list \<Rightarrow> bool" where
  "sort_result cmp xs ys \<longleftrightarrow>
     mset ys = mset xs \<and> (strict_weak_order cmp \<longrightarrow> ys = stable_sorted cmp xs)"

definition runs_result :: "('a \<Rightarrow> 'a \<Rightarrow> bool) \<Rightarrow> 'a list \<Rightarrow> 'a list list \<Rightarrow> bool" where
  "runs_result cmp xs cs \<longleftrightarrow>
     mset (concat cs) = mset xs
     \<and> (strict_weak_order cmp \<longrightarrow> (\<exists>segs. cs = map (stable_sorted cmp) segs \<and> concat segs = xs))"

text \<open>The calls of the two unchecked queue operations, each with the queue it is made on,
  in the order in which a run of the program makes them.\<close>

datatype queue_call = Enqueue UnsafeIntQueue | Dequeue UnsafeIntQueue

fun call_queue :: "queue_call \<Rightarrow> UnsafeIntQueue" where
  "call_queue (Enqueue q) = q"
| "call_queue (Dequeue q) = q"

text \<open>A call of \<open>enqueue\<close> is safe when the cell it writes is in the array and holds no
  pending length; a call of \<open>dequeue\<close> is safe when the cell it reads is in the array and
  the queue is not empty.\<close>

fun safe_call :: "queue_call \<Rightarrow> bool" where
  "safe_call (Enqueue q) \<longleftrightarrow>
     unat (m_size q) < capacity q \<and> unat (m_tail q AND m_mask q) < capacity q"
| "safe_call (Dequeue q) \<longleftrightarrow> m_size q \<noteq> 0 \<and> unat (m_head q) < capacity q"

text \<open>Every round of the outer loop of \<open>build_run_size_queue\<close> calls \<open>enqueue\<close> once, in
  either branch, on the queue it starts with.\<close>

function scan_calls :: "('a \<Rightarrow> 'a \<Rightarrow> bool) \<Rightarrow> iter \<Rightarrow> 'a scan_state \<Rightarrow> queue_call list" where
  "scan_calls cmp lst (h, q, left, right) =
     (if it_less left lst
      then Enqueue q # scan_calls cmp lst (scan_body cmp lst (h, q, left, right))
      else [])"
  by pat_completeness auto
termination
proof (relation "measure (\<lambda>(cmp, lst, h, q, left, right). snd lst - snd left)")
  show "wf (measure (\<lambda>(cmp :: 'a \<Rightarrow> 'a \<Rightarrow> bool, lst :: iter, h :: 'a heap,
                         q :: UnsafeIntQueue, left :: iter, right :: iter). snd lst - snd left))"
    by simp
next
  fix cmp :: "'a \<Rightarrow> 'a \<Rightarrow> bool" and lst left right :: iter and h :: "'a heap"
    and q :: UnsafeIntQueue
  assume less: "it_less left lst"
  obtain h' q' left' right' where
    body: "scan_body cmp lst (h, q, left, right) = (h', q', left', right')"
    by (metis prod_cases4)
  from scan_body_left [OF body] less
  show "((cmp, lst, scan_body cmp lst (h, q, left, right)), (cmp, lst, h, q, left, right))
          \<in> measure (\<lambda>(cmp, lst, h, q, left, right). snd lst - snd left)"
    by (simp add: body it_less_def)
qed

declare scan_calls.simps [simp del]

definition build_calls ::
  "('a \<Rightarrow> 'a \<Rightarrow> bool) \<Rightarrow> 'a heap \<Rightarrow> iter \<Rightarrow> iter \<Rightarrow> queue_call list" where
  "build_calls cmp h first last' =
     (let len = (of_nat (distance first last') :: size_t) in
      case new_UnsafeIntQueue (len div 2 + 1) of
        None \<Rightarrow> []
      | Some p_q \<Rightarrow>
          let left = first;
              right = it_add left 1;
              lst = it_sub last' 1
          in scan_calls cmp lst (h, p_q, left, right) @
             (case scan_loop cmp lst (h, p_q, left, right) of
                (h', q', left', right') \<Rightarrow> if left' = lst then [Enqueue q'] else []))"

text \<open>One round of the merge loop: two calls of \<open>dequeue\<close>, one of \<open>enqueue\<close>, and one more
  of each when a single run is left over at the end of a pass.\<close>

definition merge_step_calls :: "'a sort_state \<Rightarrow> queue_call list" where
  "merge_step_calls st =
     (case dequeue (queue st) of (left_run_length, q1) \<Rightarrow>
      case dequeue q1 of (right_run_length, q2) \<Rightarrow>
        let q3 = enqueue q2 (left_run_length + right_run_length);
            runs_left' = runs_left st - 2
        in [Dequeue (queue st), Dequeue q1, Enqueue q2] @
           (if runs_left' = 1
            then (case dequeue q3 of (single_length, q4) \<Rightarrow> [Dequeue q3, Enqueue q4])
            else []))"

function merge_calls :: "('a \<Rightarrow> 'a \<Rightarrow> bool) \<Rightarrow> 'a sort_state \<Rightarrow> queue_call list" where
  "merge_calls cmp st =
     (if 1 < queue_size (queue st)
      then merge_step_calls st @ merge_calls cmp (merge_step cmp st)
      else [])"
  by pat_completeness auto
termination
  by (relation "measure (\<lambda>(cmp, st). unat (queue_size (queue st)))")
     (auto simp: merge_step_size)

declare merge_calls.simps [simp del]

definition sort_calls ::
  "('a \<Rightarrow> 'a \<Rightarrow> bool) \<Rightarrow> 'a heap \<Rightarrow> iter \<Rightarrow> iter \<Rightarrow> iter \<Rightarrow> queue_call list" where
  "sort_calls cmp h first last' buffer =
     (let len = (of_nat (distance first last') :: size_t) in
      if len < 2 then []
      else build_calls cmp h first last' @
           (case build_run_size_queue cmp h first last' of
              None \<Rightarrow> []
            | Some (h', p_queue) \<Rightarrow>
                merge_calls cmp (initial_state h' p_queue first last' buffer)))"

text \<open>What the proofs keep for every call: it is safe, and it is made on a queue of
  capacity \<open>c\<close> that holds at most \<open>n\<close> lengths.\<close>

definition call_within :: "nat \<Rightarrow> nat \<Rightarrow> queue_call \<Rightarrow> bool" where
  "call_within c n k \<longleftrightarrow>
     safe_call k \<and> capacity (call_queue k) = c \<and> unat (m_size (call_queue k)) \<le> n"

text \<open>The call after the outer loop of \<open>build_run_size_queue\<close>, for an element left
  over at the end of the range.\<close>

definition finish_calls :: "iter \<Rightarrow> 'a scan_state \<Rightarrow> queue_call list" where
  "finish_calls lst st =
     (case st of (h, q, left, right) \<Rightarrow> if left = lst then [Enqueue q] else [])"

text \<open>A memory in which the array of the caller holds \<open>xs\<close> and nothing is allocated yet, a
  filler for fresh arrays, and two comparators for the examples: by the first component of
  a pair, and "is the predecessor of", which is not transitive.\<close>

definition caller_heap :: "'a list \<Rightarrow> 'a heap" where
  "caller_heap xs b = (case b of Caller \<Rightarrow> xs | Scratch \<Rightarrow> [])"

definition zero_fill :: "nat \<Rightarrow> nat" where
  "zero_fill i = 0"

definition pair_fill :: "nat \<Rightarrow> nat \<times> string" where
  "pair_fill i = (0, [])"

definition by_key :: "nat \<times> string \<Rightarrow> nat \<times> string \<Rightarrow> bool" where
  "by_key a b \<longleftrightarrow> fst a < fst b"

definition predecessor :: "nat \<Rightarrow> nat \<Rightarrow> bool" where
  "predecessor a b \<longleftrightarrow> Suc a = b"

text \<open>The lengths in the queue that the scanner returns, in the order in which \<open>dequeue\<close>
  hands them out.\<close>

definition scanned_lengths :: "('a \<Rightarrow> 'a \<Rightarrow> bool) \<Rightarrow> 'a list \<Rightarrow> nat list option" where
  "scanned_lengths cmp xs =
     map_option (\<lambda>r. map unat (pending (snd r)))
       (build_run_size_queue cmp (caller_heap xs) (Caller, 0) (Caller, length xs))"

definition scanned_array :: "('a \<Rightarrow> 'a \<Rightarrow> bool) \<Rightarrow> 'a list \<Rightarrow> 'a list option" where
  "scanned_array cmp xs =
     map_option (\<lambda>r. fst r Caller)
       (build_run_size_queue cmp (caller_heap xs) (Caller, 0) (Caller, length xs))"

text \<open>The number of lengths in the queue that the scanner returns, and the capacity of
  that queue.\<close>

definition scanned_room :: "('a \<Rightarrow> 'a \<Rightarrow> bool) \<Rightarrow> 'a list \<Rightarrow> (nat \<times> nat) option" where
  "scanned_room cmp xs =
     map_option (\<lambda>r. (unat (queue_size (snd r)), capacity (snd r)))
       (build_run_size_queue cmp (caller_heap xs) (Caller, 0) (Caller, length xs))"

definition sorted_array :: "(nat \<Rightarrow> 'a) \<Rightarrow> ('a \<Rightarrow> 'a \<Rightarrow> bool) \<Rightarrow> 'a list \<Rightarrow> 'a list option" where
  "sorted_array uninit cmp xs =
     map_option (\<lambda>h. h Caller)
       (natural_merge_sort uninit cmp (caller_heap xs) (Caller, 0) (Caller, length xs))"

definition parallel_sorted_array ::
  "size_t \<Rightarrow> (nat \<Rightarrow> 'a) \<Rightarrow> ('a \<Rightarrow> 'a \<Rightarrow> bool) \<Rightarrow> 'a list \<Rightarrow> 'a list option" where
  "parallel_sorted_array cores uninit cmp xs =
     map_option (\<lambda>h. h Caller)
       (parallel_natural_merge_sort cores uninit cmp (caller_heap xs) (Caller, 0)
          (Caller, length xs))"

section \<open>Lemmas and theorems\<close>

lemma ceillog2_floorlog: "1 \<le> r \<Longrightarrow> ceillog2 r = floorlog 2 (r - 1)"
proof (cases "r = 1")
  case True
  then show ?thesis
    by (simp add: floorlog_def)
next
  case False
  assume "1 \<le> r"
  with False have pos: "0 < r - 1"
    by simp
  let ?l = "floorlog 2 (r - 1)"
  from floorlog_bounds [OF pos, of 2] have b: "2 ^ (?l - 1) \<le> r - 1" "r - 1 < 2 ^ ?l"
    by simp_all
  have lpos: "0 < ?l"
    using pos by (simp add: floorlog_def)
  then have "(2::nat) ^ ?l = 2 * 2 ^ (?l - 1)"
    by (cases ?l) simp_all
  with b have "r \<le> 2 ^ ?l" "2 ^ ?l < 2 * r"
    by linarith+
  then show ?thesis
    by (rule ceillog2_eqI)
qed

lemma and_exp_word: "((2 ^ k :: size_t) AND num \<noteq> 0) = bit num k"
  using and_exp_eq_0_iff_not_bit [of num k] by (simp add: and.commute)

lemma nat_bit_ge: "bit (n::nat) k \<Longrightarrow> 2 ^ k \<le> n"
proof -
  assume "bit n k"
  then have "odd (n div 2 ^ k)"
    by (simp add: bit_iff_odd_drop_bit drop_bit_eq_div)
  then have "1 \<le> n div 2 ^ k"
    by (cases "n div 2 ^ k") auto
  then show ?thesis
    by (simp add: div_greater_zero_iff Suc_le_eq)
qed

lemma nat_nobit_top: "\<not> bit (n::nat) k \<Longrightarrow> n < 2 ^ Suc k \<Longrightarrow> n < 2 ^ k"
proof -
  assume a: "\<not> bit n k" "n < 2 ^ Suc k"
  then have e: "even (n div 2 ^ k)"
    by (simp add: bit_iff_odd_drop_bit drop_bit_eq_div)
  from a have "n div 2 ^ k < 2"
    by (simp add: less_mult_imp_div_less)
  with e have "n div 2 ^ k = 0"
    by (cases "n div 2 ^ k") auto
  then show ?thesis
    by (simp add: div_eq_0_iff)
qed

lemma nat_bit_top: "bit (n::nat) k \<Longrightarrow> n < 2 ^ Suc k \<Longrightarrow> floorlog 2 n = Suc k"
proof -
  assume a: "bit n k" "n < 2 ^ Suc k"
  from nat_bit_ge [OF a(1)] have "Suc k \<le> floorlog 2 n"
    by (intro floorlog_ge_SucI) simp_all
  moreover from a(2) have "floorlog 2 n \<le> Suc k"
    by (intro floorlog_leI) simp_all
  ultimately show ?thesis
    by simp
qed

text \<open>Started at the bit \<open>k\<close> with a number that has no bit above \<open>k\<close>, the loop adds to
  the counter the number of zero bits from \<open>k\<close> down to the highest set bit.\<close>

lemma leading_zeros_loop_pow:
  "k < 64 \<Longrightarrow> unat num < 2 ^ Suc k \<Longrightarrow>
   leading_zeros_loop num (2 ^ k) c = c + of_nat (Suc k - floorlog 2 (unat num))"
proof (induction k arbitrary: c)
  case 0
  then have "unat num = 0 \<or> unat num = 1"
    by auto
  then have "num = 0 \<or> num = 1"
    by (auto simp: word_unat_eq_iff)
  then show ?case
    by (auto simp: leading_zeros_loop.simps [of _ 1] leading_zeros_loop.simps [of _ 0]
        floorlog_def)
next
  case (Suc k)
  have nz: "(2 ^ Suc k :: size_t) \<noteq> 0"
    using Suc.prems(1) by (simp add: exp_eq_zero_iff del: power_Suc)
  show ?case
  proof (cases "bit num (Suc k)")
    case True
    then have "bit (unat num) (Suc k)"
      by (simp add: bit_unsigned_iff)
    from nat_bit_top [OF this Suc.prems(2)] True nz show ?thesis
      by (subst leading_zeros_loop.simps) (simp add: and_exp_word del: power_Suc)
  next
    case False
    then have nb: "\<not> bit (unat num) (Suc k)"
      by (simp add: bit_unsigned_iff)
    from nat_nobit_top [OF this Suc.prems(2)] have lt: "unat num < 2 ^ Suc k" .
    then have fl: "floorlog 2 (unat num) \<le> Suc k"
      by (intro floorlog_leI) simp_all
    have db: "drop_bit 1 (2 ^ Suc k :: size_t) = 2 ^ k"
      using Suc.prems(1) by (intro bit_word_eqI) (auto simp: bit_simps simp del: power_Suc)
    from Suc.prems(1) have "k < 64"
      by simp
    from Suc.IH [OF this lt, of "c + 1"] fl False nz db show ?thesis
      by (subst leading_zeros_loop.simps) (simp add: and_exp_word Suc_diff_le del: power_Suc)
  qed
qed

lemma unat_get_pass_amount: "unat (get_pass_amount r) = floorlog 2 (unat (r - 1))"
proof -
  have lt: "unat (r - 1) < 2 ^ Suc 63"
    using unsigned_less [of "r - 1"] by simp
  have "floorlog 2 (unat (r - 1)) \<le> 64"
    using lt by (intro floorlog_leI) simp_all
  then show ?thesis
    using leading_zeros_loop_pow [OF _ lt, of 0]
    by (simp add: get_pass_amount_def leading_zeros_def unat_of_nat)
qed

lemma get_pass_amount_ceillog2:
  assumes "1 \<le> r"
  shows "unat (get_pass_amount r) = ceillog2 (unat r)"
proof -
  from assms have "unat (r - 1) = unat r - 1" "1 \<le> unat r"
    by (simp_all add: unat_sub word_le_nat_alt)
  then show ?thesis
    by (simp add: unat_get_pass_amount ceillog2_floorlog)
qed

lemma get_pass_amount_1: "get_pass_amount 1 = 0"
proof -
  have "unat (get_pass_amount 1) = 0"
    by (simp add: unat_get_pass_amount floorlog_def)
  then show ?thesis
    by (simp add: unat_eq_zero)
qed

lemma length_merge_runs [simp]: "length (merge_runs cmp xs ys) = length xs + length ys"
  by (induction cmp xs ys rule: merge_runs.induct) simp_all

lemma mset_merge_runs [simp]: "mset (merge_runs cmp xs ys) = mset xs + mset ys"
  by (induction cmp xs ys rule: merge_runs.induct) simp_all

lemma swo_irrefl: "strict_weak_order cmp \<Longrightarrow> \<not> cmp x x"
  by (simp add: strict_weak_order_def)

lemma swo_trans: "strict_weak_order cmp \<Longrightarrow> cmp x y \<Longrightarrow> cmp y z \<Longrightarrow> cmp x z"
  unfolding strict_weak_order_def by blast

lemma swo_asym: "strict_weak_order cmp \<Longrightarrow> cmp x y \<Longrightarrow> \<not> cmp y x"
  using swo_trans [of cmp x y x] swo_irrefl [of cmp x] by blast

lemma swo_neg_trans:
  assumes "strict_weak_order cmp" "\<not> cmp x y" "\<not> cmp y z"
  shows "\<not> cmp x z"
proof
  assume xz: "cmp x z"
  have yx: "\<not> cmp y x"
    using swo_trans [OF assms(1), of y x z] xz assms(3) by blast
  have zy: "\<not> cmp z y"
    using swo_trans [OF assms(1), of x z y] xz assms(2) by blast
  from assms(1) have "\<not> cmp x y \<and> \<not> cmp y x \<longrightarrow> \<not> cmp y z \<and> \<not> cmp z y \<longrightarrow> \<not> cmp x z \<and> \<not> cmp z x"
    unfolding strict_weak_order_def by blast
  with assms(2,3) yx zy xz show False
    by blast
qed

lemma merge_runs_Nil2 [simp]: "merge_runs cmp xs [] = xs"
  by (cases xs) simp_all

lemma merge_runs_single: "merge_runs cmp [x] ys = insert_stable cmp x ys"
  by (induction ys) simp_all

lemma merge_runs_insert:
  "strict_weak_order cmp \<Longrightarrow>
   merge_runs cmp (insert_stable cmp x as) bs = insert_stable cmp x (merge_runs cmp as bs)"
proof (induction cmp as bs rule: merge_runs.induct)
  case (1 cmp ys)
  then show ?case by (simp add: merge_runs_single)
next
  case (2 cmp v va)
  then show ?case by simp
next
  case (3 cmp a as b bs)
  note swo = "3.prems"
  show ?case
  proof (cases "cmp b a")
    case ba: True
    show ?thesis
    proof (cases "cmp a x")
      case True
      with ba have "cmp b x" using swo_trans [OF swo] by blast
      with ba True "3.IH"(1) swo show ?thesis by simp
    next
      case False
      with ba "3.IH"(1) swo show ?thesis by simp
    qed
  next
    case ba: False
    show ?thesis
    proof (cases "cmp a x")
      case True
      with ba "3.IH"(2) swo show ?thesis by simp
    next
      case False
      with ba have "\<not> cmp b x" using swo_neg_trans [OF swo] by blast
      with ba False show ?thesis by simp
    qed
  qed
qed

lemma merge_runs_stable_sorted:
  "strict_weak_order cmp \<Longrightarrow>
   merge_runs cmp (stable_sorted cmp as) (stable_sorted cmp bs) = stable_sorted cmp (as @ bs)"
  by (induction as) (simp_all add: merge_runs_insert)

lemma set_insert_stable [simp]: "set (insert_stable cmp x ys) = insert x (set ys)"
  by (induction ys) auto

lemma mset_insert_stable [simp]: "mset (insert_stable cmp x ys) = add_mset x (mset ys)"
  by (induction ys) auto

lemma mset_stable_sorted [simp]: "mset (stable_sorted cmp xs) = mset xs"
  by (induction xs) auto

lemma length_stable_sorted [simp]: "length (stable_sorted cmp xs) = length xs"
  using mset_stable_sorted [of cmp xs] by (metis size_mset)

lemma set_stable_sorted [simp]: "set (stable_sorted cmp xs) = set xs"
  using mset_stable_sorted [of cmp xs] by (metis set_mset_mset)

lemma non_decreasing_insert:
  "strict_weak_order cmp \<Longrightarrow> non_decreasing cmp ys \<Longrightarrow> non_decreasing cmp (insert_stable cmp x ys)"
proof (induction ys)
  case Nil
  then show ?case by (simp add: non_decreasing_def)
next
  case (Cons y ys)
  show ?case
  proof (cases "cmp y x")
    case True
    then have "\<not> cmp x y" using swo_asym [OF Cons.prems(1)] by blast
    with True Cons show ?thesis by (auto simp: non_decreasing_def)
  next
    case False
    have "\<forall>z\<in>set ys. \<not> cmp z x"
      using swo_neg_trans [OF Cons.prems(1)] False Cons.prems(2) by (auto simp: non_decreasing_def)
    with False Cons.prems(2) show ?thesis by (auto simp: non_decreasing_def)
  qed
qed

lemma non_decreasing_stable_sorted:
  "strict_weak_order cmp \<Longrightarrow> non_decreasing cmp (stable_sorted cmp xs)"
  by (induction xs) (simp_all add: non_decreasing_insert, simp add: non_decreasing_def)

lemma filter_insert_stable:
  assumes swo: "strict_weak_order cmp"
  shows "filter (equiv_under cmp a) (insert_stable cmp x ys) =
         (if equiv_under cmp a x then x # filter (equiv_under cmp a) ys
          else filter (equiv_under cmp a) ys)"
proof (induction ys)
  case Nil
  then show ?case by simp
next
  case (Cons y ys)
  show ?case
  proof (cases "cmp y x")
    case True
    have "\<not> (equiv_under cmp a y \<and> equiv_under cmp a x)"
    proof
      assume e: "equiv_under cmp a y \<and> equiv_under cmp a x"
      from swo have "\<not> cmp y a \<and> \<not> cmp a y \<longrightarrow> \<not> cmp a x \<and> \<not> cmp x a \<longrightarrow> \<not> cmp y x \<and> \<not> cmp x y"
        unfolding strict_weak_order_def by blast
      with e True show False by (auto simp: equiv_under_def)
    qed
    with True Cons show ?thesis by auto
  next
    case False
    then show ?thesis by simp
  qed
qed

lemma filter_stable_sorted:
  "strict_weak_order cmp \<Longrightarrow>
   filter (equiv_under cmp a) (stable_sorted cmp xs) = filter (equiv_under cmp a) xs"
  by (induction xs) (simp_all add: filter_insert_stable)

lemma stable_sorted_id:
  "non_decreasing cmp xs \<Longrightarrow> stable_sorted cmp xs = xs"
proof (induction xs)
  case Nil
  then show ?case by simp
next
  case (Cons x xs)
  then have "stable_sorted cmp xs = xs" by (simp add: non_decreasing_def)
  with Cons.prems show ?case by (cases xs) (simp_all add: non_decreasing_def)
qed

lemma insert_stable_last:
  "\<forall>y\<in>set ys. cmp y x \<Longrightarrow> insert_stable cmp x ys = ys @ [x]"
  by (induction ys) simp_all

lemma stable_sorted_rev:
  "sorted_wrt (\<lambda>a b. cmp b a) xs \<Longrightarrow> stable_sorted cmp xs = rev xs"
  by (induction xs) (simp_all add: insert_stable_last)

lemma transp_not_cmp: "strict_weak_order cmp \<Longrightarrow> transp (\<lambda>a b. \<not> cmp b a)"
  using swo_neg_trans by (fastforce simp: transp_def)

lemma transp_cmp_conv: "strict_weak_order cmp \<Longrightarrow> transp (\<lambda>a b. cmp b a)"
  using swo_trans by (fastforce simp: transp_def)

lemma successively_non_decreasing:
  "strict_weak_order cmp \<Longrightarrow> successively (\<lambda>a b. \<not> cmp b a) xs \<Longrightarrow> non_decreasing cmp xs"
  using transp_not_cmp [of cmp]
  by (simp add: non_decreasing_def successively_conv_sorted_wrt)

lemma successively_descending:
  "strict_weak_order cmp \<Longrightarrow> successively (\<lambda>a b. cmp b a) xs \<Longrightarrow> sorted_wrt (\<lambda>a b. cmp b a) xs"
  using transp_cmp_conv [of cmp]
  by (simp add: successively_conv_sorted_wrt)

lemma length_pending [simp]: "length (pending q) = unat (m_size q)"
  by (simp add: pending_def)

lemma unat_and_pow_mask:
  "k < 64 \<Longrightarrow> unat ((w :: size_t) AND (2 ^ k - 1)) = unat w mod 2 ^ k"
proof -
  have "w AND (2 ^ k - 1) = take_bit k w"
    by (simp only: take_bit_eq_mask mask_eq_exp_minus_1)
  moreover have "unat (take_bit k w) = take_bit k (unat w)"
    by (rule unsigned_take_bit_eq)
  moreover have "take_bit k (unat w) = unat w mod 2 ^ k"
    by (rule take_bit_eq_mod)
  ultimately show ?thesis
    by (simp only:)
qed

lemma mod_pow_64: "k < 64 \<Longrightarrow> (n mod 2 ^ 64) mod 2 ^ k = (n::nat) mod 2 ^ k"
proof -
  assume "k < 64"
  then have "(2::nat) ^ k dvd 2 ^ 64"
    by (intro le_imp_power_dvd) simp
  then show ?thesis
    by (rule mod_mod_cancel)
qed

lemma unat_succ_mask:
  "k < 64 \<Longrightarrow> unat (((w :: size_t) + 1) AND (2 ^ k - 1)) = (unat w + 1) mod 2 ^ k"
proof -
  assume k: "k < 64"
  have "unat (w + 1) = (unat w + 1) mod 2 ^ 64"
    by (simp add: unat_word_ariths)
  then have "unat (w + 1) mod 2 ^ k = (unat w + 1) mod 2 ^ k"
    using mod_pow_64 [OF k, of "unat w + 1"] by (simp only:)
  then show ?thesis
    using k by (simp only: unat_and_pow_mask)
qed

lemma pow_le_63: "k < 64 \<Longrightarrow> (2::nat) ^ k \<le> 2 ^ 63"
  by (intro power_increasing) simp_all

lemma enqueue_correct:
  assumes inv: "queue_inv q" and room: "unat (m_size q) < capacity q"
  shows "queue_inv (enqueue q e)"
    and "pending (enqueue q e) = pending q @ [e]"
    and "capacity (enqueue q e) = capacity q"
    and "m_size (enqueue q e) = m_size q + 1"
proof -
  from inv obtain k where k: "k < 64" "capacity q = 2 ^ k" "m_mask q = 2 ^ k - 1"
    by (auto simp: queue_inv_def)
  let ?c = "capacity q" and ?h = "unat (m_head q)" and ?s = "unat (m_size q)"
  from inv have hd: "?h < ?c" and tl: "unat (m_tail q) = (?h + ?s) mod ?c"
    by (auto simp: queue_inv_def)
  have cpos: "0 < ?c" using hd by simp
  have c63: "?c \<le> 2 ^ 63" using k pow_le_63 by simp
  have ti: "unat (m_tail q AND m_mask q) = (?h + ?s) mod ?c"
    using k tl by (simp add: unat_and_pow_mask)
  have sz: "unat (m_size q + 1) = ?s + 1"
  proof -
    have "?s + 1 < 2 ^ 64" using room c63 by simp
    then show ?thesis by (simp add: unat_word_ariths)
  qed
  show cap: "capacity (enqueue q e) = capacity q"
    by (simp add: enqueue_def capacity_def)
  show "m_size (enqueue q e) = m_size q + 1"
    by (simp add: enqueue_def)
  have nt: "unat (m_tail (enqueue q e)) = (?h + (?s + 1)) mod ?c"
    using k tl by (simp add: enqueue_def unat_succ_mask mod_Suc_eq)
  show "queue_inv (enqueue q e)"
    unfolding queue_inv_def cap
    using k hd room nt sz
    by (auto simp: enqueue_def intro!: exI [of _ k])
  have old: "((?h + i) mod ?c) \<noteq> ((?h + ?s) mod ?c)" if "i < ?s" for i
  proof
    assume eq: "(?h + i) mod ?c = (?h + ?s) mod ?c"
    from that have le: "?h + i \<le> ?h + ?s" by simp
    from eq have "?c dvd (?h + ?s) - (?h + i)"
      using le by (metis mod_eq_dvd_iff_nat)
    then have "?c dvd ?s - i" by simp
    moreover have "0 < ?s - i" "?s - i < ?c" using that room by simp_all
    ultimately show False by (meson dvd_imp_le not_le)
  qed
  have "pending (enqueue q e) =
        map (\<lambda>i. (m_buffer q)[(?h + ?s) mod ?c := e] ! ((?h + i) mod ?c)) [0..<?s + 1]"
    by (simp add: pending_def enqueue_def ti sz capacity_def)
  also have "\<dots> = map (\<lambda>i. m_buffer q ! ((?h + i) mod ?c)) [0..<?s] @ [e]"
    using old [THEN not_sym] cpos by (simp add: capacity_def)
  finally show "pending (enqueue q e) = pending q @ [e]"
    by (simp add: pending_def)
qed

lemma dequeue_correct:
  assumes inv: "queue_inv q" and ne: "m_size q \<noteq> 0"
  shows "queue_inv (snd (dequeue q))"
    and "fst (dequeue q) = hd (pending q)"
    and "pending (snd (dequeue q)) = tl (pending q)"
    and "capacity (snd (dequeue q)) = capacity q"
    and "m_size (snd (dequeue q)) = m_size q - 1"
proof -
  from inv obtain k where k: "k < 64" "capacity q = 2 ^ k" "m_mask q = 2 ^ k - 1"
    by (auto simp: queue_inv_def)
  let ?c = "capacity q" and ?h = "unat (m_head q)" and ?s = "unat (m_size q)"
  from inv have hd: "?h < ?c" and tl: "unat (m_tail q) = (?h + ?s) mod ?c" and le: "?s \<le> ?c"
    by (auto simp: queue_inv_def)
  from ne have spos: "0 < ?s" by (simp add: unat_gt_0)
  have sz: "unat (m_size q - 1) = ?s - 1"
    using ne by (simp add: unat_minus_one)
  have nh: "unat ((m_head q + 1) AND m_mask q) = (?h + 1) mod ?c"
    using k by (simp add: unat_succ_mask)
  show cap: "capacity (snd (dequeue q)) = capacity q"
    by (simp add: dequeue_def capacity_def)
  show "m_size (snd (dequeue q)) = m_size q - 1"
    by (simp add: dequeue_def)
  have tl': "(?h + ?s) mod ?c = ((?h + 1) mod ?c + (?s - 1)) mod ?c"
  proof -
    have "((?h + 1) mod ?c + (?s - 1)) mod ?c = ((?h + 1) + (?s - 1)) mod ?c"
      by (rule mod_add_left_eq)
    also have "(?h + 1) + (?s - 1) = ?h + ?s"
      using spos by simp
    finally show ?thesis
      by simp
  qed
  show "queue_inv (snd (dequeue q))"
    unfolding queue_inv_def cap
    using k hd le tl tl' sz nh spos
    by (auto simp: dequeue_def intro!: exI [of _ k])
  have "pending q = map (\<lambda>i. m_buffer q ! ((?h + i) mod ?c)) (0 # [Suc 0..<?s])"
    using spos by (simp add: pending_def upt_conv_Cons)
  then have p: "pending q = m_buffer q ! ?h
       # map (\<lambda>i. m_buffer q ! ((?h + i) mod ?c)) [Suc 0..<?s]"
    using hd by simp
  show "fst (dequeue q) = hd (pending q)"
    by (simp add: p dequeue_def)
  have "pending (snd (dequeue q)) =
        map (\<lambda>i. m_buffer q ! (((?h + 1) mod ?c + i) mod ?c)) [0..<?s - 1]"
    by (simp add: pending_def dequeue_def nh sz capacity_def)
  also have "\<dots> = map (\<lambda>i. m_buffer q ! ((?h + Suc i) mod ?c)) [0..<?s - 1]"
    by (simp add: mod_simps)
  also have "\<dots> = map (\<lambda>i. m_buffer q ! ((?h + i) mod ?c)) (map Suc [0..<?s - 1])"
    by (simp add: comp_def)
  also have "map Suc [0..<?s - 1] = [Suc 0..<?s]"
    using spos by (simp add: map_Suc_upt)
  finally show "pending (snd (dequeue q)) = tl (pending q)"
    by (simp add: p)
qed

lemma unat_pow2: "k < 64 \<Longrightarrow> unat (2 ^ k :: size_t) = 2 ^ k"
proof -
  assume "k < 64"
  then have "(2::nat) ^ k < 2 ^ 64"
    by (intro power_strict_increasing) simp_all
  moreover have "(2 ^ k :: size_t) = of_nat (2 ^ k)"
    by simp
  ultimately show ?thesis
    by (simp only: unat_of_nat) simp
qed

lemma fixCapacity_loop_pow:
  "j \<le> k \<Longrightarrow> k < 64 \<Longrightarrow> unat cap \<le> 2 ^ k \<Longrightarrow> (\<forall>i. j \<le> i \<and> i < k \<longrightarrow> 2 ^ i < unat cap) \<Longrightarrow>
   fixCapacity_loop cap (2 ^ j) = Some (2 ^ k)"
proof (induction "k - j" arbitrary: j)
  case 0
  then have "j = k" by simp
  with 0 have "\<not> (2 ^ j :: size_t) < cap"
    by (simp add: word_less_nat_alt unat_pow2)
  with \<open>j = k\<close> show ?case
    by (subst fixCapacity_loop.simps) simp
next
  case (Suc d)
  then have jk: "j < k" "j < 64" by simp_all
  with Suc.prems have lt: "(2 ^ j :: size_t) < cap"
    by (simp add: word_less_nat_alt unat_pow2)
  have pb: "push_bit 1 (2 ^ j :: size_t) = 2 ^ Suc j"
    by (simp add: push_bit_eq_mult)
  have "fixCapacity_loop cap (2 ^ Suc j) = Some (2 ^ k)"
    using Suc.hyps(2) Suc.prems jk by (intro Suc.hyps(1)) auto
  with lt pb show ?case
    by (subst fixCapacity_loop.simps) (simp del: power_Suc)
qed

lemma fixCapacity_correct:
  assumes "unat c \<le> 2 ^ 63"
  shows "fixCapacity c = Some (2 ^ ceillog2 (max (unat c) 256))"
    and "ceillog2 (max (unat c) 256) < 64"
proof -
  let ?m = "max (unat c) 256"
  have m: "unat (max c MINIMUM_CAPACITY) = ?m"
    by (simp add: MINIMUM_CAPACITY_def max_def word_le_nat_alt)
  have pos: "0 < ?m" by simp
  have "?m \<le> 2 ^ 63" using assms by simp
  then have "ceillog2 ?m \<le> 63"
    using pos by (simp only: ceillog2_le_iff)
  then show k: "ceillog2 ?m < 64" by simp
  have low: "\<forall>i. 0 \<le> i \<and> i < ceillog2 ?m \<longrightarrow> 2 ^ i < ?m"
    using ceillog2_le_iff [OF pos] by (metis not_le)
  have up: "?m \<le> 2 ^ ceillog2 ?m"
    by (rule le_two_power_ceillog2)
  have "fixCapacity_loop (max c MINIMUM_CAPACITY) (2 ^ 0) = Some (2 ^ ceillog2 ?m)"
  proof (rule fixCapacity_loop_pow)
    show "0 \<le> ceillog2 ?m" by simp
    show "ceillog2 ?m < 64" by (rule k)
    show "unat (max c MINIMUM_CAPACITY) \<le> 2 ^ ceillog2 ?m"
      using up by (simp only: m)
    show "\<forall>i. 0 \<le> i \<and> i < ceillog2 ?m \<longrightarrow> 2 ^ i < unat (max c MINIMUM_CAPACITY)"
      using low by (simp only: m)
  qed
  then show "fixCapacity c = Some (2 ^ ceillog2 (max (unat c) 256))"
    by (simp add: fixCapacity_def)
qed

lemma new_UnsafeIntQueue_correct:
  assumes "unat c \<le> 2 ^ 63"
  shows "\<exists>q. new_UnsafeIntQueue c = Some q \<and> queue_inv q \<and> pending q = []
             \<and> capacity q = 2 ^ ceillog2 (max (unat c) 256) \<and> m_size q = 0"
proof -
  let ?k = "ceillog2 (max (unat c) 256)"
  let ?q = "\<lparr>m_head = 0, m_tail = 0, m_size = 0, m_mask = 2 ^ ?k - 1,
             m_buffer = replicate (unat (2 ^ ?k :: size_t)) 0\<rparr>"
  from fixCapacity_correct [OF assms] have fc: "fixCapacity c = Some (2 ^ ?k)" and k: "?k < 64"
    by simp_all
  have n: "new_UnsafeIntQueue c = Some ?q"
    by (simp add: new_UnsafeIntQueue_def fc)
  have cap: "capacity ?q = 2 ^ ?k"
    using k by (simp add: capacity_def unat_pow2)
  have "queue_inv ?q"
    unfolding queue_inv_def cap using k by (auto intro!: exI [of _ ?k])
  moreover have "pending ?q = []"
    by (simp add: pending_def)
  ultimately show ?thesis
    using n cap by (intro exI [of _ ?q]) simp
qed

lemma dequeue_n_pending:
  "queue_inv q \<Longrightarrow> n = unat (m_size q) \<Longrightarrow> dequeue_n n q = pending q"
proof (induction n arbitrary: q)
  case 0
  then show ?case
    by (simp add: pending_def)
next
  case (Suc n)
  then have ne: "m_size q \<noteq> 0"
    by auto
  note d = dequeue_correct [OF Suc.prems(1) ne]
  have "unat (m_size (snd (dequeue q))) = n"
    using Suc.prems(2) ne by (simp add: d(5) unat_minus_one)
  from Suc.IH [OF d(1) this [symmetric]] have "dequeue_n n (snd (dequeue q)) = tl (pending q)"
    by (simp add: d(3))
  moreover have "pending q \<noteq> []"
    using Suc.prems(2) by (metis length_pending list.size(3) nat.simps(3))
  ultimately show ?case
    using d(2) by (simp add: split_beta)
qed

lemma split_run_nonempty: "fst (split_run P x ys) \<noteq> []"
  by (cases ys) (auto split: prod.splits)

lemma split_run_hd: "split_run P x ys = (r, rest) \<Longrightarrow> \<exists>r'. r = x # r'"
  by (cases ys) (auto split: if_splits prod.splits)

lemma concat_natural_runs: "concat (natural_runs cmp xs) = xs"
  by (induction cmp xs rule: natural_runs.induct)
     (auto split: prod.splits dest: split_run_append)

lemma length_natural_runs: "length (natural_runs cmp xs) \<le> (length xs + 1) div 2"
proof (induction cmp xs rule: natural_runs.induct)
  case (3 cmp x y ys)
  obtain r rest where s:
    "split_run (if cmp y x then (\<lambda>a b. cmp b a) else (\<lambda>a b. \<not> cmp b a)) y ys = (r, rest)"
    by (cases "split_run (if cmp y x then (\<lambda>a b. cmp b a) else (\<lambda>a b. \<not> cmp b a)) y ys")
  from split_run_length [of "if cmp y x then (\<lambda>a b. cmp b a) else (\<lambda>a b. \<not> cmp b a)" y ys] s
  have "length rest \<le> length ys" by simp
  moreover from "3.IH" [OF s [symmetric]]
  have "length (natural_runs cmp rest) \<le> (length rest + 1) div 2" .
  ultimately show ?case using s by simp
qed simp_all

lemma range_of_app:
  "h b = pre @ X @ post \<Longrightarrow> range_of h (b, length pre) (b, length pre + length X) = X"
  by (simp add: range_of_def distance_def)

lemma write_range_app:
  "h b = pre @ X @ post \<Longrightarrow> length vs = length X \<Longrightarrow>
   write_range h (b, length pre) vs = h (b := pre @ vs @ post)"
  by (simp add: write_range_def)

lemma deref_app: "h b = pre @ x # rest \<Longrightarrow> deref h (b, length pre) = x"
  by (simp add: deref_def)

lemma scan_descending_split:
  "h b = pre @ (y # zs) @ post \<Longrightarrow>
   scan_descending cmp h (b, length pre + length zs) (b, length pre) (b, Suc (length pre)) =
     ((b, length pre + length (fst (split_run (\<lambda>a b. cmp b a) y zs)) - 1),
      (b, length pre + length (fst (split_run (\<lambda>a b. cmp b a) y zs))))"
proof (induction zs arbitrary: pre y)
  case Nil
  then show ?case
    by (subst scan_descending.simps) (simp add: it_less_def)
next
  case (Cons z zs)
  have l: "deref h (b, length pre) = y"
    using Cons.prems by (simp add: deref_def)
  have r: "deref h (b, Suc (length pre)) = z"
    using Cons.prems by (simp add: deref_def nth_append)
  show ?case
  proof (cases "cmp z y")
    case True
    have "h b = (pre @ [y]) @ (z # zs) @ post"
      using Cons.prems by simp
    from Cons.IH [OF this] True l r show ?thesis
      using split_run_nonempty [of "\<lambda>a b. cmp b a" z zs]
      by (subst scan_descending.simps)
         (auto simp: it_less_def it_add_def split: prod.splits)
  next
    case False
    with l r show ?thesis
      by (subst scan_descending.simps) (simp add: it_less_def)
  qed
qed

lemma scan_ascending_split:
  "h b = pre @ (y # zs) @ post \<Longrightarrow>
   scan_ascending cmp h (b, length pre + length zs) (b, length pre) (b, Suc (length pre)) =
     ((b, length pre + length (fst (split_run (\<lambda>a b. \<not> cmp b a) y zs)) - 1),
      (b, length pre + length (fst (split_run (\<lambda>a b. \<not> cmp b a) y zs))))"
proof (induction zs arbitrary: pre y)
  case Nil
  then show ?case
    by (subst scan_ascending.simps) (simp add: it_less_def)
next
  case (Cons z zs)
  have l: "deref h (b, length pre) = y"
    using Cons.prems by (simp add: deref_def)
  have r: "deref h (b, Suc (length pre)) = z"
    using Cons.prems by (simp add: deref_def nth_append)
  show ?case
  proof (cases "cmp z y")
    case False
    have "h b = (pre @ [y]) @ (z # zs) @ post"
      using Cons.prems by simp
    from Cons.IH [OF this] False l r show ?thesis
      using split_run_nonempty [of "\<lambda>a b. \<not> cmp b a" z zs]
      by (subst scan_ascending.simps)
         (auto simp: it_less_def it_add_def split: prod.splits)
  next
    case True
    with l r show ?thesis
      by (subst scan_ascending.simps) (simp add: it_less_def)
  qed
qed

lemma ascending_form_desc: "cmp y x \<Longrightarrow> ascending_form cmp (x # y # zs) = rev (x # y # zs)"
  by (simp add: ascending_form_def)

lemma ascending_form_asc: "\<not> cmp y x \<Longrightarrow> ascending_form cmp (x # y # zs) = x # y # zs"
  by (simp add: ascending_form_def)

lemma scan_loop_runs:
  "h b = pre @ ys @ post \<Longrightarrow> 0 < length pre + length ys \<Longrightarrow> queue_inv q \<Longrightarrow>
   unat (m_size q) + length (natural_runs cmp ys) \<le> capacity q \<Longrightarrow>
   (\<exists>h' q'. finish_scan (b, length pre + length ys - 1)
              (scan_loop cmp (b, length pre + length ys - 1)
                 (h, q, (b, length pre), (b, Suc (length pre)))) = (h', q')
      \<and> h' = h (b := pre @ concat (map (ascending_form cmp) (natural_runs cmp ys)) @ post)
      \<and> queue_inv q'
      \<and> pending q' = pending q @ map (\<lambda>r. of_nat (length r)) (natural_runs cmp ys)
      \<and> capacity q' = capacity q)"
proof (induction cmp ys arbitrary: h pre q rule: natural_runs.induct)
  case (1 cmp)
  then have "length pre \<noteq> length pre - 1"
    by (cases pre) simp_all
  with 1 show ?case
    by (subst scan_loop.simps) (auto simp: finish_scan_def it_less_def)
next
  case (2 cmp x)
  then have room: "unat (m_size q) < capacity q"
    by simp
  have "h = h (b := pre @ ascending_form cmp [x] @ post)"
    using "2.prems"(1) by (auto simp: ascending_form_def)
  with enqueue_correct [OF "2.prems"(3) room, of 1] show ?case
    by (subst scan_loop.simps) (auto simp: finish_scan_def it_less_def)
next
  case (3 cmp x y ys)
  let ?P = "if cmp y x then (\<lambda>a b. cmp b a) else (\<lambda>a b. \<not> cmp b a)"
  let ?lst = "(b, length pre + length (x # y # ys) - 1)"
  obtain r rest where s: "split_run ?P y ys = (r, rest)"
    by (cases "split_run ?P y ys")
  from split_run_append [OF s] have app: "r @ rest = y # ys" .
  then have len: "length r + length rest = Suc (length ys)"
    by (metis length_append length_Cons)
  from split_run_hd [OF s] obtain r' where r': "r = y # r'"
    by blast
  have runs: "natural_runs cmp (x # y # ys) = (x # r) # natural_runs cmp rest"
    using s by simp
  have room: "unat (m_size q) < capacity q"
    using "3.prems"(4) runs by simp
  define q1 where "q1 = enqueue q (of_nat (length (x # r)))"
  note enq = enqueue_correct [OF "3.prems"(3) room, of "of_nat (length (x # r))", folded q1_def]
  have hb: "h b = (pre @ [x]) @ (y # ys) @ post"
    using "3.prems"(1) by simp
  have hr: "h b = pre @ (x # r) @ (rest @ post)"
    using "3.prems"(1) app by simp
  have dl: "deref h (b, length pre) = x"
    using "3.prems"(1) by (simp add: deref_def)
  have dr: "deref h (b, Suc (length pre)) = y"
    using "3.prems"(1) by (simp add: deref_def nth_append)
  define pre1 where "pre1 = pre @ ascending_form cmp (x # r)"
  define h1 where "h1 = h (b := pre1 @ rest @ post)"
  have laf: "length (ascending_form cmp (x # r)) = length (x # r)"
    by (simp add: ascending_form_def split: list.splits)
  have lpre1: "length pre1 = length pre + length (x # r)"
    by (simp add: pre1_def laf)
  have body: "scan_body cmp ?lst (h, q, (b, length pre), (b, Suc (length pre))) =
      (h1, q1, (b, length pre1), (b, Suc (length pre1)))"
  proof (cases "cmp y x")
    case True
    then have P: "?P = (\<lambda>a b. cmp b a)" by simp
    have sd: "scan_descending cmp h ?lst (b, Suc (length pre)) (b, Suc (Suc (length pre))) =
        ((b, length pre + length r), (b, Suc (length pre + length r)))"
      using scan_descending_split [where h = h and b = b and pre = "pre @ [x]" and y = y and zs = ys and post = post
          and cmp = cmp, OF hb] s r' unfolding P by simp
    have rv: "std_reverse h (b, length pre) (b, Suc (length pre + length r)) =
        h (b := pre @ rev (x # r) @ rest @ post)"
      using range_of_app [where h = h and b = b and pre = pre and X = "x # r" and post = "rest @ post", OF hr]
        write_range_app [where h = h and b = b and pre = pre and X = "x # r" and post = "rest @ post"
          and vs = "rev (x # r)", OF hr]
      by (simp add: std_reverse_def)
    from True r' have "ascending_form cmp (x # r) = rev (x # r)"
      by (simp add: ascending_form_desc)
    with True dl dr sd rv show ?thesis
      by (simp add: scan_body_def it_add_def distance_def h1_def pre1_def q1_def)
  next
    case False
    then have P: "?P = (\<lambda>a b. \<not> cmp b a)" by simp
    have sa: "scan_ascending cmp h ?lst (b, Suc (length pre)) (b, Suc (Suc (length pre))) =
        ((b, length pre + length r), (b, Suc (length pre + length r)))"
      using scan_ascending_split [where h = h and b = b and pre = "pre @ [x]" and y = y and zs = ys and post = post
          and cmp = cmp, OF hb] s r' unfolding P by simp
    have "h = h (b := pre @ (x # r) @ rest @ post)"
      using hr by auto
    moreover from False r' have "ascending_form cmp (x # r) = x # r"
      by (simp add: ascending_form_asc)
    ultimately show ?thesis using False dl dr sa
      by (simp add: scan_body_def it_add_def distance_def h1_def pre1_def q1_def)
  qed
  have h1: "h1 b = pre1 @ rest @ post"
    by (simp add: h1_def)
  have lp: "length pre1 + length rest - 1 = length pre + length (x # y # ys) - 1"
    using lpre1 len by simp
  have pos: "0 < length pre1 + length rest"
    using lpre1 by simp
  have cap1: "unat (m_size q1) + length (natural_runs cmp rest) \<le> capacity q1"
  proof -
    have "unat (m_size q1) = unat (m_size q + 1)"
      by (simp only: enq(4))
    also have "\<dots> \<le> unat (m_size q) + 1"
      by (simp add: unat_word_ariths)
    finally have "unat (m_size q1) \<le> unat (m_size q) + 1" .
    moreover have "length (natural_runs cmp (x # y # ys)) = Suc (length (natural_runs cmp rest))"
      by (subst runs) simp
    ultimately show ?thesis
      using "3.prems"(4) unfolding enq(3) by linarith
  qed
  from "3.IH" [OF s [symmetric], of h1 pre1 q1, OF h1 pos enq(1) cap1]
  obtain h' q' where fin:
    "finish_scan (b, length pre1 + length rest - 1)
       (scan_loop cmp (b, length pre1 + length rest - 1)
          (h1, q1, (b, length pre1), (b, Suc (length pre1)))) = (h', q')"
    "h' = h1 (b := pre1 @ concat (map (ascending_form cmp) (natural_runs cmp rest)) @ post)"
    "queue_inv q'"
    "pending q' = pending q1 @ map (\<lambda>r. of_nat (length r)) (natural_runs cmp rest)"
    "capacity q' = capacity q1"
    by blast
  have less: "it_less (b, length pre) ?lst"
    by (simp add: it_less_def)
  have unfold: "scan_loop cmp ?lst (h, q, (b, length pre), (b, Suc (length pre))) =
      scan_loop cmp ?lst (h1, q1, (b, length pre1), (b, Suc (length pre1)))"
    using less body by (subst scan_loop.simps) simp
  have hfin: "h' = h (b := pre @ concat (map (ascending_form cmp) (natural_runs cmp (x # y # ys))) @ post)"
    by (simp only: fin(2) runs) (simp add: h1_def pre1_def)
  have pfin: "pending q' = pending q @ map (\<lambda>r. of_nat (length r)) (natural_runs cmp (x # y # ys))"
    by (simp only: fin(4) runs enq(2)) simp
  have cfin: "capacity q' = capacity q"
    by (simp only: fin(5) enq(3))
  from fin(1) have "finish_scan ?lst (scan_loop cmp ?lst (h, q, (b, length pre), (b, Suc (length pre)))) = (h', q')"
    by (simp only: unfold lp)
  with hfin pfin cfin fin(3) show ?case
    by blast
qed

lemma unat_of_nat_size_t: "n < 2 ^ 64 \<Longrightarrow> unat (of_nat n :: size_t) = n"
  by (simp add: unat_of_nat)

lemma unat_half_plus_one:
  assumes "n < 2 ^ 64"
  shows "unat ((of_nat n :: size_t) div 2 + 1) = n div 2 + 1"
proof -
  have "unat ((of_nat n :: size_t) div 2) = n div 2"
    using assms by (simp add: unat_div unat_of_nat)
  moreover have "n div 2 + 1 < 2 ^ 64"
    using assms by simp
  ultimately show ?thesis
    by (simp add: unat_word_ariths)
qed

lemma build_run_size_queue_correct:
  assumes h: "h b = pre @ xs @ post" and n2: "2 \<le> length xs" and n64: "length xs < 2 ^ 64"
  shows "\<exists>q. build_run_size_queue cmp h (b, length pre) (b, length pre + length xs) =
               Some (h (b := pre @ concat (map (ascending_form cmp) (natural_runs cmp xs)) @ post), q)
             \<and> queue_inv q
             \<and> pending q = map (\<lambda>r. of_nat (length r)) (natural_runs cmp xs)
             \<and> capacity q = 2 ^ ceillog2 (max (length xs div 2 + 1) 256)"
proof -
  let ?n = "length xs"
  let ?c = "(of_nat ?n :: size_t) div 2 + 1"
  have uc: "unat ?c = ?n div 2 + 1"
    using n64 by (rule unat_half_plus_one)
  have "?n div 2 + 1 \<le> 2 ^ 63"
    using n64 by simp
  then have "unat ?c \<le> 2 ^ 63"
    by (simp only: uc)
  from new_UnsafeIntQueue_correct [OF this] obtain q0 where q0:
    "new_UnsafeIntQueue ?c = Some q0" "queue_inv q0" "pending q0 = []"
    "capacity q0 = 2 ^ ceillog2 (max (?n div 2 + 1) 256)" "m_size q0 = 0"
    unfolding uc by blast
  have "max (?n div 2 + 1) 256 \<le> capacity q0"
    unfolding q0(4) by (rule le_two_power_ceillog2)
  moreover have "length (natural_runs cmp xs) \<le> (?n + 1) div 2"
    by (rule length_natural_runs)
  ultimately have room: "unat (m_size q0) + length (natural_runs cmp xs) \<le> capacity q0"
    by (simp add: q0(5))
  have pos: "0 < length pre + ?n"
    using n2 by linarith
  from scan_loop_runs [where h = h and b = b and pre = pre and ys = xs and post = post,
      OF h pos q0(2) room] obtain h' q' where fin:
    "finish_scan (b, length pre + ?n - 1)
       (scan_loop cmp (b, length pre + ?n - 1) (h, q0, (b, length pre), (b, Suc (length pre))))
       = (h', q')"
    "h' = h (b := pre @ concat (map (ascending_form cmp) (natural_runs cmp xs)) @ post)"
    "queue_inv q'"
    "pending q' = pending q0 @ map (\<lambda>r. of_nat (length r)) (natural_runs cmp xs)"
    "capacity q' = capacity q0"
    by blast
  have "build_run_size_queue cmp h (b, length pre) (b, length pre + ?n) =
        Some (finish_scan (b, length pre + ?n - 1)
          (scan_loop cmp (b, length pre + ?n - 1) (h, q0, (b, length pre), (b, Suc (length pre)))))"
    by (simp add: build_run_size_queue_def distance_def q0(1) it_add_def it_sub_def
        finish_scan_def split: prod.splits)
  with fin q0 show ?thesis
    by simp
qed

lemma heap_upd_same: "h b = v \<Longrightarrow> h (b := v) = h"
  by auto

lemma word_one_less: "(1 < (w :: size_t)) = (1 < unat w)"
  by (simp add: word_less_nat_alt)

lemma merge_step_generic:
  fixes st :: "'a sort_state"
  assumes src: "source st = (bS, length preS)" and tgt: "target st = (bT, length preT)"
    and ne: "bS \<noteq> bT"
    and hS: "heap st bS = preS @ (S0 @ concat (t0 # t1 # rest)) @ postS"
    and hT: "heap st bT = preT @ (concat done @ T1) @ postT"
    and lS0: "length S0 = length (concat done)"
    and lT1: "length T1 = length (concat (t0 # t1 # rest))"
    and n64: "length (concat done) + length (concat (t0 # t1 # rest)) < 2 ^ 64"
    and qi: "queue_inv (queue st)"
    and pq: "pending (queue st) = map run_len (t0 # t1 # rest) @ map run_len done"
    and rl: "unat (runs_left st) = length (t0 # t1 # rest)"
    and off: "unat (offset st) = length (concat done)"
  shows "queue_inv (queue (merge_step cmp st))"
    and "capacity (queue (merge_step cmp st)) = capacity (queue st)"
    and "2 \<le> length rest \<Longrightarrow>
           heap (merge_step cmp st) = (heap st) (bT := preT @
              (concat (done @ [merge_runs cmp t0 t1])
                 @ drop (length t0 + length t1) T1) @ postT)
           \<and> pending (queue (merge_step cmp st)) = map run_len rest @ map run_len (done @ [merge_runs cmp t0 t1])
           \<and> source (merge_step cmp st) = source st \<and> target (merge_step cmp st) = target st
           \<and> unat (runs_left (merge_step cmp st)) = length rest
           \<and> unat (offset (merge_step cmp st)) = length (concat (done @ [merge_runs cmp t0 t1]))"
    and "length rest < 2 \<Longrightarrow>
           heap (merge_step cmp st) = (heap st) (bT := preT @
              concat (done @ [merge_runs cmp t0 t1] @ rest) @ postT)
           \<and> pending (queue (merge_step cmp st)) = map run_len (done @ [merge_runs cmp t0 t1] @ rest)
           \<and> source (merge_step cmp st) = target st \<and> target (merge_step cmp st) = source st
           \<and> unat (runs_left (merge_step cmp st)) = length (done @ [merge_runs cmp t0 t1] @ rest)
           \<and> unat (offset (merge_step cmp st)) = 0"
proof -
  let ?l = "length t0" and ?r = "length t1" and ?o = "length (concat done)"
  define q where "q = queue st"
  have l64: "?l < 2 ^ 64" "?r < 2 ^ 64" "?l + ?r < 2 ^ 64" "?o + (?l + ?r) < 2 ^ 64"
    using n64 by simp_all
  have ul: "unat (run_len t0) = ?l" and ur: "unat (run_len t1) = ?r"
    using l64 by (simp_all add: unat_of_nat)
  have ulr: "run_len t0 + run_len t1 = run_len (merge_runs cmp t0 t1)"
    by simp
  have uo: "unat (offset st + (run_len t0 + run_len t1)) = ?o + (?l + ?r)"
    using l64 off by (simp add: unat_word_ariths unat_of_nat)
  \<comment> \<open>the two dequeues\<close>
  have ne0: "m_size q \<noteq> 0"
    using pq length_pending [of q] by (auto simp: q_def)
  note d1 = dequeue_correct [OF qi [folded q_def] ne0]
  define q1 where "q1 = snd (dequeue q)"
  have dq1: "dequeue q = (run_len t0, q1)"
    using d1(2) pq by (simp add: q1_def q_def prod_eq_iff)
  have pq1: "pending q1 = map run_len (t1 # rest) @ map run_len done"
    using d1(3) pq by (simp add: q1_def q_def)
  have ne1: "m_size q1 \<noteq> 0"
    using pq1 length_pending [of q1] by auto
  note d2 = dequeue_correct [OF d1(1) [folded q1_def] ne1]
  define q2 where "q2 = snd (dequeue q1)"
  have dq2: "dequeue q1 = (run_len t1, q2)"
    using d2(2) pq1 by (simp add: q2_def prod_eq_iff)
  have pq2: "pending q2 = map run_len rest @ map run_len done"
    using d2(3) pq1 by (simp add: q2_def)
  have cap2: "capacity q2 = capacity q"
    using d1(4) d2(4) by (simp add: q1_def q2_def)
  have sz2: "unat (m_size q2) + 2 = unat (m_size q)"
    using length_pending [of q2] length_pending [of q] pq pq2 by (simp add: q_def)
  have room2: "unat (m_size q2) < capacity q2"
    using sz2 qi cap2 by (simp add: queue_inv_def q_def)
  note e3 = enqueue_correct [OF d2(1) [folded q2_def] room2, of "run_len t0 + run_len t1"]
  define q3 where "q3 = enqueue q2 (run_len t0 + run_len t1)"
  have pq3: "pending q3 = map run_len rest @ map run_len (done @ [merge_runs cmp t0 t1])"
    using e3(2) pq2 by (simp add: q3_def)
  \<comment> \<open>the merge\<close>
  have hS1: "heap st bS = (preS @ S0) @ t0 @ (t1 @ concat rest @ postS)"
    using hS by simp
  have hS2: "heap st bS = (preS @ S0 @ t0) @ t1 @ (concat rest @ postS)"
    using hS by simp
  have r1: "range_of (heap st) (bS, length preS + ?o) (bS, length preS + ?o + ?l) = t0"
    using range_of_app [where h = "heap st" and b = bS and pre = "preS @ S0" and X = "t0", OF hS1]
    by (simp add: lS0)
  have r2: "range_of (heap st) (bS, length preS + ?o + ?l) (bS, length preS + ?o + ?l + ?r) = t1"
    using range_of_app [where h = "heap st" and b = bS and pre = "preS @ S0 @ t0" and X = "t1", OF hS2]
    by (simp add: lS0 add.assoc)
  have hT1: "heap st bT = (preT @ concat done) @ take (?l + ?r) T1 @ (drop (?l + ?r) T1 @ postT)"
    using hT by simp
  have lcd: "length (concat done) = ?o"
    by (simp add: length_concat comp_def)
  have w: "write_range (heap st) (bT, length preT + ?o) (merge_runs cmp t0 t1) =
        (heap st) (bT := preT @ (concat (done @ [merge_runs cmp t0 t1]) @ drop (?l + ?r) T1) @ postT)"
    using write_range_app [where h = "heap st" and b = bT and pre = "preT @ concat done"
        and X = "take (?l + ?r) T1" and vs = "merge_runs cmp t0 t1", OF hT1] lT1
    by simp
  define h1 where "h1 = (heap st) (bT := preT @ (concat (done @ [merge_runs cmp t0 t1]) @ drop (?l + ?r) T1) @ postT)"
  have mg: "std_merge (heap st)
       (it_add (source st) (unat (offset st)))
       (it_add (it_add (source st) (unat (offset st))) (unat (run_len t0)))
       (it_add (it_add (source st) (unat (offset st))) (unat (run_len t0)))
       (it_add (it_add (it_add (source st) (unat (offset st))) (unat (run_len t0))) (unat (run_len t1)))
       (it_add (target st) (unat (offset st))) cmp = h1"
    unfolding std_merge_def h1_def
    by (simp only: src tgt off ul ur it_add_def fst_conv snd_conv r1 r2 w)
  have url: "unat (runs_left st - 2) = length rest"
  proof -
    have "2 \<le> runs_left st"
      using rl by (simp add: word_le_nat_alt)
    then have "unat (runs_left st - 2) = unat (runs_left st) - 2"
      by (simp add: unat_sub)
    with rl show ?thesis
      by simp
  qed
  have c1: "(runs_left st - 2 = 1) = (length rest = 1)"
    using url by (simp add: word_unat_eq_iff)
  have c0: "(runs_left st - 2 = 0) = (length rest = 0)"
    using url by (simp add: word_unat_eq_iff)
  have ms: "merge_step cmp st =
     (if length rest = 1
      then (case dequeue q3 of (single_length, q4) \<Rightarrow>
              \<lparr>heap = std_copy h1
                 (it_add (source st) (unat (offset st + (run_len t0 + run_len t1))))
                 (it_add (it_add (source st) (unat (offset st + (run_len t0 + run_len t1))))
                    (unat single_length))
                 (it_add (target st) (unat (offset st + (run_len t0 + run_len t1)))),
               queue = enqueue q4 single_length, source = target st, target = source st,
               runs_left = queue_size (enqueue q4 single_length), offset = 0\<rparr>)
      else if length rest = 0
      then \<lparr>heap = h1, queue = q3, source = target st, target = source st,
            runs_left = queue_size q3, offset = 0\<rparr>
      else \<lparr>heap = h1, queue = q3, source = source st, target = target st,
            runs_left = runs_left st - 2, offset = offset st + (run_len t0 + run_len t1)\<rparr>)"
    by (simp only: merge_step_def q_def [symmetric] dq1 dq2 prod.case Let_def mg
        q3_def [symmetric] c1 c0)
  have lc: "length (concat (done @ [merge_runs cmp t0 t1])) = ?o + (?l + ?r)"
    by simp
  have big: "queue_inv (queue (merge_step cmp st))
      \<and> capacity (queue (merge_step cmp st)) = capacity (queue st)
      \<and> (2 \<le> length rest \<longrightarrow>
           heap (merge_step cmp st) = h1
           \<and> pending (queue (merge_step cmp st)) = map run_len rest @ map run_len (done @ [merge_runs cmp t0 t1])
           \<and> source (merge_step cmp st) = source st \<and> target (merge_step cmp st) = target st
           \<and> unat (runs_left (merge_step cmp st)) = length rest
           \<and> unat (offset (merge_step cmp st)) = length (concat (done @ [merge_runs cmp t0 t1])))
      \<and> (length rest < 2 \<longrightarrow>
           heap (merge_step cmp st) = (heap st) (bT := preT @
              concat (done @ [merge_runs cmp t0 t1] @ rest) @ postT)
           \<and> pending (queue (merge_step cmp st)) = map run_len (done @ [merge_runs cmp t0 t1] @ rest)
           \<and> source (merge_step cmp st) = target st \<and> target (merge_step cmp st) = source st
           \<and> unat (runs_left (merge_step cmp st)) = length (done @ [merge_runs cmp t0 t1] @ rest)
           \<and> unat (offset (merge_step cmp st)) = 0)"
  proof -
    consider (many) "2 \<le> length rest" | (none) "rest = []" | (one) t2 where "rest = [t2]"
    proof (cases rest)
      case Nil
      then show ?thesis by (rule none)
    next
      case (Cons a as)
      then show ?thesis
        by (cases as) (auto intro: one many)
    qed
    then show ?thesis
    proof cases
      case many
      then have "length rest \<noteq> 1" "length rest \<noteq> 0" "\<not> length rest < 2"
        by linarith+
      then show ?thesis
        using e3 pq3 url uo lc cap2
        by (simp add: ms q3_def [symmetric] q_def [symmetric])
    next
      case none
      have "unat (m_size q3) = length (pending q3)"
        by simp
      then have "unat (queue_size q3) = Suc (length done)"
        unfolding pq3 none by (simp add: queue_size_def)
      moreover have "h1 = (heap st) (bT := preT @
              concat (done @ [merge_runs cmp t0 t1] @ rest) @ postT)"
        using lT1 none by (simp add: h1_def)
      ultimately show ?thesis
        using e3 pq3 cap2 none
        by (simp add: ms q3_def [symmetric] q_def [symmetric])
    next
      case one
      have ne3: "m_size q3 \<noteq> 0"
        using pq3 length_pending [of q3] one by auto
      note d3 = dequeue_correct [OF e3(1) [folded q3_def] ne3]
      define q4 where "q4 = snd (dequeue q3)"
      have dq3: "dequeue q3 = (run_len t2, q4)"
        using d3(2) pq3 one by (simp add: q4_def prod_eq_iff)
      have pq4: "pending q4 = map run_len (done @ [merge_runs cmp t0 t1])"
        using d3(3) pq3 one by (simp add: q4_def)
      have cap4: "capacity q4 = capacity q"
        using d3(4) e3(3) cap2 by (simp add: q4_def q3_def)
      have sz4: "unat (m_size q4) + 2 = unat (m_size q)"
        using length_pending [of q4] length_pending [of q] pq pq4 one by (simp add: q_def)
      have room4: "unat (m_size q4) < capacity q4"
        using sz4 qi cap4 by (simp add: queue_inv_def q_def)
      note e5 = enqueue_correct [OF d3(1) [folded q4_def] room4, of "run_len t2"]
      define q5 where "q5 = enqueue q4 (run_len t2)"
      have pq5: "pending q5 = map run_len (done @ [merge_runs cmp t0 t1] @ rest)"
        using e5(2) pq4 one by (simp add: q5_def)
      have "unat (m_size q5) = length (pending q5)"
        by simp
      then have sz5: "unat (queue_size q5) = length (done @ [merge_runs cmp t0 t1] @ rest)"
        unfolding pq5 by (simp add: queue_size_def)
      have l2: "length t2 < 2 ^ 64"
        using n64 one by simp
      have u2: "unat (run_len t2) = length t2"
        using l2 by (simp add: unat_of_nat)
      have h1S: "h1 bS = (preS @ S0 @ t0 @ t1) @ t2 @ postS"
        using hS ne one by (simp add: h1_def)
      have rc: "range_of h1 (bS, length preS + (?o + (?l + ?r)))
                  (bS, length preS + (?o + (?l + ?r)) + length t2) = t2"
        using range_of_app [where h = h1 and b = bS and pre = "preS @ S0 @ t0 @ t1"
            and X = "t2" and post = postS, OF h1S]
        by (simp add: lS0 add.assoc)
      have h1T: "h1 bT = (preT @ concat (done @ [merge_runs cmp t0 t1])) @ drop (?l + ?r) T1 @ postT"
        by (simp add: h1_def)
      have wc: "write_range h1 (bT, length preT + (?o + (?l + ?r))) (t2) =
          h1 (bT := preT @ concat (done @ [merge_runs cmp t0 t1] @ rest) @ postT)"
        using write_range_app [where h = h1 and b = bT
            and pre = "preT @ concat (done @ [merge_runs cmp t0 t1])"
            and X = "drop (?l + ?r) T1" and vs = "t2" and post = postT, OF h1T] lT1 one
        by simp
      have cp: "std_copy h1
                 (it_add (source st) (unat (offset st + (run_len t0 + run_len t1))))
                 (it_add (it_add (source st) (unat (offset st + (run_len t0 + run_len t1))))
                    (unat (run_len t2)))
                 (it_add (target st) (unat (offset st + (run_len t0 + run_len t1)))) =
            (heap st) (bT := preT @ concat (done @ [merge_runs cmp t0 t1] @ rest) @ postT)"
        unfolding std_copy_def
        by (simp only: src tgt uo u2 it_add_def fst_conv snd_conv rc wc) (simp add: h1_def)
      have ms1: "merge_step cmp st =
          \<lparr>heap = (heap st) (bT := preT @ concat (done @ [merge_runs cmp t0 t1] @ rest) @ postT),
           queue = q5, source = target st, target = source st,
           runs_left = queue_size q5, offset = 0\<rparr>"
        using one by (simp only: ms dq3 prod.case cp q5_def [symmetric]) simp
      show ?thesis
        using e5(1,3) pq5 sz5 cap4 one
        by (simp add: ms1 q5_def [symmetric] q_def [symmetric])
    qed
  qed
  from big show "queue_inv (queue (merge_step cmp st))"
    by blast
  from big show "capacity (queue (merge_step cmp st)) = capacity (queue st)"
    by blast
  from big show "2 \<le> length rest \<Longrightarrow>
           heap (merge_step cmp st) = (heap st) (bT := preT @
              (concat (done @ [merge_runs cmp t0 t1])
                 @ drop (length t0 + length t1) T1) @ postT)
           \<and> pending (queue (merge_step cmp st)) = map run_len rest @ map run_len (done @ [merge_runs cmp t0 t1])
           \<and> source (merge_step cmp st) = source st \<and> target (merge_step cmp st) = target st
           \<and> unat (runs_left (merge_step cmp st)) = length rest
           \<and> unat (offset (merge_step cmp st)) = length (concat (done @ [merge_runs cmp t0 t1]))"
    by (simp add: h1_def)
  from big show "length rest < 2 \<Longrightarrow>
           heap (merge_step cmp st) = (heap st) (bT := preT @
              concat (done @ [merge_runs cmp t0 t1] @ rest) @ postT)
           \<and> pending (queue (merge_step cmp st)) = map run_len (done @ [merge_runs cmp t0 t1] @ rest)
           \<and> source (merge_step cmp st) = target st \<and> target (merge_step cmp st) = source st
           \<and> unat (runs_left (merge_step cmp st)) = length (done @ [merge_runs cmp t0 t1] @ rest)
           \<and> unat (offset (merge_step cmp st)) = 0"
    by blast
qed

lemma merge_invD:
  assumes "merge_inv cmp first buffer pre post st done todo"
  shows "fst first \<noteq> fst buffer"
    and "length (pre (fst first)) = snd first"
    and "length (pre (fst buffer)) = snd buffer"
    and "(source st = first \<and> target st = buffer) \<or> (source st = buffer \<and> target st = first)"
    and "\<exists>S0 T1.
           heap st (fst (source st)) =
             pre (fst (source st)) @ (S0 @ concat todo)
               @ post (fst (source st))
         \<and> heap st (fst (target st)) =
             pre (fst (target st)) @ (concat done @ T1)
               @ post (fst (target st))
         \<and> length S0 = length (concat done) \<and> length T1 = length (concat todo)"
    and "length (concat done) + length (concat todo) < 2 ^ 64"
    and "queue_inv (queue st)"
    and "pending (queue st) = map run_len todo @ map run_len done"
    and "unat (runs_left st) = length todo"
    and "unat (offset st) = length (concat done)"
    and "todo \<noteq> []"
    and "done \<noteq> [] \<longrightarrow> 2 \<le> length todo"
    and "source st = first \<longleftrightarrow> even (passes_left (length done) (length todo))"
  using assms unfolding merge_inv_def by blast+

lemma merge_invI:
  assumes "fst first \<noteq> fst buffer"
    and "length (pre (fst first)) = snd first"
    and "length (pre (fst buffer)) = snd buffer"
    and "(source st = first \<and> target st = buffer) \<or> (source st = buffer \<and> target st = first)"
    and "heap st (fst (source st)) =
             pre (fst (source st)) @ (Sx @ concat todo)
               @ post (fst (source st))"
    and "heap st (fst (target st)) =
             pre (fst (target st)) @ (concat done @ Ty)
               @ post (fst (target st))"
    and "length Sx = length (concat done)" and "length Ty = length (concat todo)"
    and "length (concat done) + length (concat todo) < 2 ^ 64"
    and "queue_inv (queue st)"
    and "pending (queue st) = map run_len todo @ map run_len done"
    and "unat (runs_left st) = length todo"
    and "unat (offset st) = length (concat done)"
    and "todo \<noteq> []"
    and "done \<noteq> [] \<longrightarrow> 2 \<le> length todo"
    and "source st = first \<longleftrightarrow> even (passes_left (length done) (length todo))"
  shows "merge_inv cmp first buffer pre post st done todo"
  using assms unfolding merge_inv_def by blast

lemma passes_left_mid:
  "2 \<le> t \<Longrightarrow> passes_left (Suc d) t = passes_left d (Suc (Suc t))"
  by (simp add: passes_left_def)

lemma passes_left_end:
  "t < 2 \<Longrightarrow> passes_left d (Suc (Suc t)) = Suc (passes_left 0 (Suc d + t))"
proof -
  assume t: "t < 2"
  then have e: "(Suc (Suc t) + 1) div 2 = Suc t"
    by auto
  have "passes_left 0 (Suc d + t) = ceillog2 (Suc d + t)"
    using ceillog2_rec [of "Suc d + t"] by (auto simp: passes_left_def)
  then show ?thesis
    using e by (simp add: passes_left_def)
qed

lemma merge_step_inv:
  assumes inv: "merge_inv cmp first buffer pre post st done todo"
    and gt: "1 < queue_size (queue st)"
  shows "\<exists>done' todo'. merge_inv cmp first buffer pre post (merge_step cmp st) done' todo'
           \<and> merged_once cmp (done @ todo) (done' @ todo')
           \<and> length done' + length todo' < length done + length todo"
    and "capacity (queue (merge_step cmp st)) = capacity (queue st)"
proof -
  let ?st' = "merge_step cmp st"
  note d = merge_invD [OF inv]
  note todo = d(11,12) and pq = d(8)
  have "unat (queue_size (queue st)) = length todo + length done"
    using length_pending [of "queue st"] pq by (simp add: queue_size_def)
  with gt have "1 < length todo + length done"
    by (simp add: word_one_less)
  with todo have "2 \<le> length todo"
    by (cases "done = []") auto
  then obtain t0 t1 rest where tds: "todo = t0 # t1 # rest"
    by (cases todo rule: remdups_adj.cases) auto
  obtain bS pS bT pT where st: "source st = (bS, pS)" "target st = (bT, pT)"
    by (cases "source st"; cases "target st") blast
  from d(5) obtain S0 T1 where
    hS: "heap st bS = pre bS @ (S0 @ concat (t0 # t1 # rest)) @ post bS"
    and hT: "heap st bT = pre bT @ (concat done @ T1) @ post bT"
    and lS0: "length S0 = length (concat done)"
    and lT1: "length T1 = length (concat (t0 # t1 # rest))"
    unfolding st tds fst_conv by blast
  note roles = d(4) and fb = d(1) and lp = d(2,3) and par = d(13)
  from roles fb st have ne: "bS \<noteq> bT"
    by auto
  from roles lp st have src: "source st = (bS, length (pre bS))" and tgt: "target st = (bT, length (pre bT))"
    by auto
  note n64 = d(6) [unfolded tds] and qi = d(7) and rl = d(9) [unfolded tds] and off = d(10)
  note step = merge_step_generic [OF src tgt ne hS hT lS0 lT1 n64 qi pq [unfolded tds] rl off]
  show "capacity (queue ?st') = capacity (queue st)"
    by (rule step(2))
  show "\<exists>done' todo'. merge_inv cmp first buffer pre post ?st' done' todo'
           \<and> merged_once cmp (done @ todo) (done' @ todo')
           \<and> length done' + length todo' < length done + length todo"
  proof (cases "2 \<le> length rest")
    case True
    note s = step(3) [OF True]
    have st': "source ?st' = (bS, pS)" "target ?st' = (bT, pT)"
      using s st by simp_all
    have "merge_inv cmp first buffer pre post ?st' (done @ [merge_runs cmp t0 t1]) rest"
    proof (rule merge_invI [where Sx = "S0 @ t0 @ t1"
          and Ty = "drop (length t0 + length t1) T1"])
      show "fst first \<noteq> fst buffer" by (rule fb)
      show "length (pre (fst first)) = snd first" by (rule lp)
      show "length (pre (fst buffer)) = snd buffer" by (rule lp)
      show "(source ?st' = first \<and> target ?st' = buffer) \<or> (source ?st' = buffer \<and> target ?st' = first)"
        using roles s by simp
      show "heap ?st' (fst (source ?st')) =
             pre (fst (source ?st')) @ ((S0 @ t0 @ t1)
               @ concat rest) @ post (fst (source ?st'))"
        unfolding st' fst_conv using s hS ne by simp
      show "heap ?st' (fst (target ?st')) =
             pre (fst (target ?st')) @ (concat (done @ [merge_runs cmp t0 t1])
               @ drop (length t0 + length t1) T1) @ post (fst (target ?st'))"
        unfolding st' fst_conv using s by simp
      show "length (S0 @ t0 @ t1) = length (concat (done @ [merge_runs cmp t0 t1]))"
        using lS0 by simp
      show "length (drop (length t0 + length t1) T1) = length (concat rest)"
        using lT1 by simp
      show "length (concat (done @ [merge_runs cmp t0 t1])) + length (concat rest) < 2 ^ 64"
        using n64 by simp
      show "queue_inv (queue ?st')" by (rule step(1))
      show "pending (queue ?st') = map run_len rest @ map run_len (done @ [merge_runs cmp t0 t1])"
        using s by blast
      show "unat (runs_left ?st') = length rest" using s by blast
      show "unat (offset ?st') = length (concat (done @ [merge_runs cmp t0 t1]))" using s by blast
      show "rest \<noteq> []" using True by auto
      show "done @ [merge_runs cmp t0 t1] \<noteq> [] \<longrightarrow> 2 \<le> length rest" using True by simp
      have "source ?st' = source st" using s by blast
      then show "source ?st' = first \<longleftrightarrow> even (passes_left (length (done @ [merge_runs cmp t0 t1])) (length rest))"
        using par passes_left_mid [OF True, of "length done"] by (simp add: tds)
    qed
    then show ?thesis
      unfolding tds
      by (intro exI [of _ "done @ [merge_runs cmp t0 t1]"] exI [of _ rest])
         (auto simp: merged_once_def)
  next
    case False
    then have lt: "length rest < 2" by simp
    note s = step(4) [OF lt]
    have st': "source ?st' = (bT, pT)" "target ?st' = (bS, pS)"
      using s st by simp_all
    have "merge_inv cmp first buffer pre post ?st' [] (done @ [merge_runs cmp t0 t1] @ rest)"
    proof (rule merge_invI [where Sx = "[]"
          and Ty = "S0 @ concat (t0 # t1 # rest)"])
      show "fst first \<noteq> fst buffer" by (rule fb)
      show "length (pre (fst first)) = snd first" by (rule lp)
      show "length (pre (fst buffer)) = snd buffer" by (rule lp)
      show "(source ?st' = first \<and> target ?st' = buffer) \<or> (source ?st' = buffer \<and> target ?st' = first)"
        using roles s by auto
      show "heap ?st' (fst (source ?st')) =
             pre (fst (source ?st')) @ ([] @ concat (done @ [merge_runs cmp t0 t1] @ rest))
               @ post (fst (source ?st'))"
        unfolding st' fst_conv using s by simp
      show "heap ?st' (fst (target ?st')) =
             pre (fst (target ?st')) @ (concat []
               @ (S0 @ concat (t0 # t1 # rest))) @ post (fst (target ?st'))"
        unfolding st' fst_conv using s hS ne by simp
      show "length ([] :: 'a list) = length (concat ([] :: 'a list list))"
        by simp
      show "length (S0 @ concat (t0 # t1 # rest))
            = length (concat (done @ [merge_runs cmp t0 t1] @ rest))"
        using lS0 by simp
      show "length (concat ([] :: 'a list list)) + length (concat (done @ [merge_runs cmp t0 t1] @ rest)) < 2 ^ 64"
        using n64 by simp
      show "queue_inv (queue ?st')" by (rule step(1))
      show "pending (queue ?st') = map run_len (done @ [merge_runs cmp t0 t1] @ rest) @ map run_len []"
        using s by simp
      show "unat (runs_left ?st') = length (done @ [merge_runs cmp t0 t1] @ rest)" using s by blast
      show "unat (offset ?st') = length (concat ([] :: 'a list list))" using s by simp
      show "done @ [merge_runs cmp t0 t1] @ rest \<noteq> []" by simp
      show "([] :: 'a list list) \<noteq> [] \<longrightarrow> 2 \<le> length (done @ [merge_runs cmp t0 t1] @ rest)" by simp
      have "source ?st' = target st" using s by blast
      moreover have "first \<noteq> buffer" using fb by auto
      ultimately have "source ?st' = first \<longleftrightarrow> source st \<noteq> first"
        using roles by auto
      then show "source ?st' = first \<longleftrightarrow>
          even (passes_left (length ([] :: 'a list list)) (length (done @ [merge_runs cmp t0 t1] @ rest)))"
        using par passes_left_end [OF lt, of "length done"] by (simp add: tds)
    qed
    then show ?thesis
      unfolding tds
      by (intro exI [of _ "[]"] exI [of _ "done @ [merge_runs cmp t0 t1] @ rest"])
         (auto simp: merged_once_def)
  qed
qed

lemma split_run_successively:
  "split_run P x ys = (r, rest) \<Longrightarrow> successively P r"
proof (induction ys arbitrary: x r rest)
  case Nil
  then show ?case by auto
next
  case (Cons y ys)
  show ?case
  proof (cases "P x y")
    case True
    obtain r' rest' where s: "split_run P y ys = (r', rest')"
      by (cases "split_run P y ys")
    from split_run_hd [OF s] obtain zs where "r' = y # zs"
      by blast
    with Cons.IH [OF s] Cons.prems True s show ?thesis
      by auto
  next
    case False
    with Cons.prems show ?thesis by auto
  qed
qed

lemma natural_runs_shape:
  "r \<in> set (natural_runs cmp xs) \<Longrightarrow>
     (descending_run cmp r \<and> ascending_form cmp r = rev r)
     \<or> (ascending_run cmp r \<and> ascending_form cmp r = r)"
proof (induction cmp xs rule: natural_runs.induct)
  case (1 cmp)
  then show ?case by simp
next
  case (2 cmp x)
  then show ?case by (simp add: ascending_run_def ascending_form_def)
next
  case (3 cmp x y ys)
  let ?P = "if cmp y x then (\<lambda>a b. cmp b a) else (\<lambda>a b. \<not> cmp b a)"
  obtain r' rest where s: "split_run ?P y ys = (r', rest)"
    by (cases "split_run ?P y ys")
  from split_run_hd [OF s] obtain zs where r': "r' = y # zs"
    by blast
  from split_run_successively [OF s] have suc: "successively ?P r'" .
  from "3.prems" s have "r = x # r' \<or> r \<in> set (natural_runs cmp rest)"
    by simp
  then show ?case
  proof
    assume r: "r = x # r'"
    show ?thesis
    proof (cases "cmp y x")
      case True
      with suc r r' have "descending_run cmp r"
        by (simp add: descending_run_def)
      moreover from True r r' have "ascending_form cmp r = rev r"
        by (simp add: ascending_form_def)
      ultimately show ?thesis by blast
    next
      case False
      with suc r r' have "ascending_run cmp r"
        by (simp add: ascending_run_def)
      moreover from False r r' have "ascending_form cmp r = r"
        by (simp add: ascending_form_def)
      ultimately show ?thesis by blast
    qed
  next
    assume "r \<in> set (natural_runs cmp rest)"
    with "3.IH" [OF s [symmetric]] show ?thesis by blast
  qed
qed

lemma natural_runs_nonempty: "r \<in> set (natural_runs cmp xs) \<Longrightarrow> r \<noteq> []"
  using natural_runs_shape [of r cmp xs]
  by (auto simp: descending_run_def ascending_run_def)

lemma ascending_form_stable_sorted:
  assumes swo: "strict_weak_order cmp" and r: "r \<in> set (natural_runs cmp xs)"
  shows "ascending_form cmp r = stable_sorted cmp r"
proof -
  from natural_runs_shape [OF r] show ?thesis
  proof
    assume a: "descending_run cmp r \<and> ascending_form cmp r = rev r"
    then have "sorted_wrt (\<lambda>a b. cmp b a) r"
      using successively_descending [OF swo] by (simp add: descending_run_def)
    then show ?thesis
      using a by (simp add: stable_sorted_rev)
  next
    assume a: "ascending_run cmp r \<and> ascending_form cmp r = r"
    then have "non_decreasing cmp r"
      using successively_non_decreasing [OF swo] by (simp add: ascending_run_def)
    then show ?thesis
      using a by (simp add: stable_sorted_id)
  qed
qed

lemma map_ascending_form_stable_sorted:
  "strict_weak_order cmp \<Longrightarrow>
   map (ascending_form cmp) (natural_runs cmp xs) = map (stable_sorted cmp) (natural_runs cmp xs)"
  by (simp add: ascending_form_stable_sorted)

lemma natural_runs_Nil_iff: "natural_runs cmp xs = [] \<longleftrightarrow> xs = []"
  by (cases "(cmp, xs)" rule: natural_runs.cases) (auto split: prod.splits)

lemma split_run_stop: "split_run P x ys = (r, z # rest) \<Longrightarrow> \<not> P (last r) z"
proof (induction ys arbitrary: x r)
  case Nil
  then show ?case by simp
next
  case (Cons y ys)
  show ?case
  proof (cases "P x y")
    case True
    obtain r' rest' where s: "split_run P y ys = (r', rest')"
      by (cases "split_run P y ys")
    with True Cons.prems have r: "r = x # r'" and rest: "rest' = z # rest"
      by simp_all
    from split_run_hd [OF s] have "r' \<noteq> []"
      by auto
    with Cons.IH [OF s [unfolded rest]] r show ?thesis
      by simp
  next
    case False
    with Cons.prems show ?thesis
      by auto
  qed
qed

lemma natural_runs_hd: "hd (hd (natural_runs cmp (z # zs))) = z"
  by (cases zs) (auto split: prod.splits)

lemma natural_runs_maximal: "maximal_runs cmp (natural_runs cmp xs)"
proof (induction cmp xs rule: natural_runs.induct)
  case (1 cmp)
  then show ?case by simp
next
  case (2 cmp x)
  then show ?case by simp
next
  case (3 cmp x y ys)
  let ?P = "if cmp y x then (\<lambda>a b. cmp b a) else (\<lambda>a b. \<not> cmp b a)"
  obtain r rest where s: "split_run ?P y ys = (r, rest)"
    by (cases "split_run ?P y ys")
  from split_run_hd [OF s] obtain r' where r: "r = y # r'"
    by blast
  have runs: "natural_runs cmp (x # y # ys) = (x # r) # natural_runs cmp rest"
    using s by simp
  show ?case
  proof (cases rest)
    case Nil
    then show ?thesis
      by (simp only: runs) simp
  next
    case (Cons z zs)
    then have "natural_runs cmp rest \<noteq> []"
      by (simp add: natural_runs_Nil_iff)
    then obtain s' rs where nr: "natural_runs cmp rest = s' # rs"
      by (cases "natural_runs cmp rest") auto
    have hd: "hd s' = z"
      using natural_runs_hd [of cmp z zs] nr Cons by simp
    from split_run_stop [OF s [unfolded Cons]] have stop: "\<not> ?P (last r) z" .
    have last: "last (x # r) = last r"
      using r by simp
    have "maximal_runs cmp (s' # rs)"
      using "3.IH" [OF s [symmetric]] nr by simp
    with stop hd r show ?thesis
      by (simp only: runs nr maximal_runs.simps last) (auto split: if_splits)
  qed
qed

lemma natural_runs_descending:
  assumes "successively (\<lambda>a b. cmp b a) xs" and "2 \<le> length xs"
  shows "natural_runs cmp xs = [xs]" and "ascending_form cmp xs = rev xs"
proof -
  from assms(2) obtain x y ys where xs: "xs = x # y # ys"
    by (cases xs rule: remdups_adj.cases) auto
  from assms(1) have c: "cmp y x" and s: "successively (\<lambda>a b. cmp b a) (y # ys)"
    by (simp_all add: xs)
  have all: "split_run P a as = (a # as, [])" if "successively P (a # as)" for P and a :: 'a and as
    using that by (induction as arbitrary: a) auto
  from all [OF s] c show "natural_runs cmp xs = [xs]"
    by (simp add: xs)
  from c show "ascending_form cmp xs = rev xs"
    by (simp add: xs ascending_form_def)
qed

lemma merge_loop_last: "merge_loop cmp st = last (merge_trace cmp st)"
proof (induction cmp st rule: merge_loop.induct)
  case (1 cmp st)
  show ?case
  proof (cases "1 < queue_size (queue st)")
    case True
    have "merge_trace cmp (merge_step cmp st) \<noteq> []"
      by (subst merge_trace.simps) simp
    with True "1.IH" show ?thesis
      by (subst merge_loop.simps, subst merge_trace.simps) simp
  next
    case False
    then show ?thesis
      by (subst merge_loop.simps, subst merge_trace.simps) simp
  qed
qed

lemma merge_trace_nonempty: "merge_trace cmp st \<noteq> []"
  by (subst merge_trace.simps) simp

lemma merge_loop_in_trace: "merge_loop cmp st \<in> set (merge_trace cmp st)"
  using merge_trace_nonempty [of cmp st] by (simp add: merge_loop_last)

lemma merge_loop_exit: "\<not> 1 < queue_size (queue (merge_loop cmp st))"
proof (induction cmp st rule: merge_loop.induct)
  case (1 cmp st)
  then show ?case
    by (subst merge_loop.simps) simp
qed

lemma merge_trace_inv:
  "\<forall>cs cs'. merged_once cmp cs cs' \<longrightarrow> Q cs \<longrightarrow> Q cs' \<Longrightarrow>
     merge_inv cmp first buffer pre post st done todo \<Longrightarrow> Q (done @ todo) \<Longrightarrow>
     st' \<in> set (merge_trace cmp st) \<Longrightarrow>
     \<exists>done' todo'. merge_inv cmp first buffer pre post st' done' todo'
        \<and> Q (done' @ todo')
        \<and> length done' + length todo' \<le> length done + length todo
        \<and> capacity (queue st') = capacity (queue st)"
proof (induction cmp st arbitrary: "done" todo rule: merge_trace.induct)
  case (1 cmp st)
  note clo = "1.prems"(1)
  from "1.prems"(4) have "st' = st \<or>
      (1 < queue_size (queue st) \<and> st' \<in> set (merge_trace cmp (merge_step cmp st)))"
    by (subst (asm) merge_trace.simps) (auto split: if_splits)
  then show ?case
  proof
    assume "st' = st"
    with "1.prems"(2,3) show ?thesis by blast
  next
    assume a: "1 < queue_size (queue st) \<and> st' \<in> set (merge_trace cmp (merge_step cmp st))"
    then have gt: "1 < queue_size (queue st)" by blast
    from merge_step_inv [OF "1.prems"(2) gt] obtain d1 t1 where
      i1: "merge_inv cmp first buffer pre post (merge_step cmp st) d1 t1"
      and c1: "merged_once cmp (done @ todo) (d1 @ t1)"
      and l1: "length d1 + length t1 < length done + length todo"
      and cap: "capacity (queue (merge_step cmp st)) = capacity (queue st)"
      by blast
    from clo c1 "1.prems"(3) have q1: "Q (d1 @ t1)"
      by blast
    from "1.IH" [OF gt clo i1 q1] a obtain d2 t2 where
      "merge_inv cmp first buffer pre post st' d2 t2"
      "Q (d2 @ t2)"
      "length d2 + length t2 \<le> length d1 + length t1"
      "capacity (queue st') = capacity (queue (merge_step cmp st))"
      by blast
    with l1 cap show ?thesis
      by (intro exI [of _ d2] exI [of _ t2]) simp
  qed
qed

lemma merge_loop_correct:
  assumes clo: "\<forall>cs cs'. merged_once cmp cs cs' \<longrightarrow> Q cs \<longrightarrow> Q cs'"
    and inv: "merge_inv cmp first buffer pre post st done todo"
    and q: "Q (done @ todo)"
  shows "source (merge_loop cmp st) = first"
    and "\<exists>c B. heap (merge_loop cmp st) (fst first) = pre (fst first) @ c @ post (fst first)
           \<and> Q [c]
           \<and> heap (merge_loop cmp st) (fst buffer) = pre (fst buffer) @ B @ post (fst buffer)
           \<and> length B = length c"
    and "queue_size (queue (merge_loop cmp st)) = 1"
proof -
  let ?st' = "merge_loop cmp st"
  from merge_trace_inv [OF clo inv q merge_loop_in_trace] obtain d t where
    i: "merge_inv cmp first buffer pre post ?st' d t"
    and c: "Q (d @ t)"
    by blast
  note D = merge_invD [OF i]
  have "unat (queue_size (queue ?st')) = length t + length d"
    using length_pending [of "queue ?st'"] D(8) by (simp add: queue_size_def)
  moreover have "\<not> 1 < unat (queue_size (queue ?st'))"
    using merge_loop_exit [of cmp st] by (simp add: word_one_less)
  ultimately have le: "length t + length d \<le> 1"
    by simp
  with D(11) have d: "d = []" and t: "length t = 1"
    by (cases t; simp)+
  from t obtain x where tx: "t = [x]"
    by (cases t) auto
  have "passes_left (length d) (length t) = 0"
    by (simp add: passes_left_def d t)
  with D(13) show src: "source ?st' = first"
    by simp
  with D(4) D(1) have tgt: "target ?st' = buffer"
    by auto
  from D(5) src tgt d tx c show "\<exists>c B. heap ?st' (fst first) = pre (fst first) @ c @ post (fst first)
           \<and> Q [c]
           \<and> heap ?st' (fst buffer) = pre (fst buffer) @ B @ post (fst buffer)
           \<and> length B = length c"
    by auto
  have "unat (queue_size (queue ?st')) = 1"
    using length_pending [of "queue ?st'"] D(8) d t by (simp add: queue_size_def)
  then show "queue_size (queue ?st') = 1"
    by (simp add: word_unat_eq_iff)
qed

lemma passes_left_start: "passes_left 0 k = ceillog2 k"
  using ceillog2_rec [of k] by (auto simp: passes_left_def)

lemma word_and_one_odd: "((w :: size_t) AND 1 = 1) = odd (unat w)"
proof -
  have "(w AND 1 = 1) = (unat (w mod 2) = 1)"
    by (simp add: and_one_eq word_unat_eq_iff)
  also have "unat (w mod 2) = unat w mod 2"
    by (simp add: unat_mod)
  finally show ?thesis
    by (simp add: odd_iff_mod_2_eq_one)
qed

lemma sort_result_length: "sort_result cmp xs ys \<Longrightarrow> length ys = length xs"
  by (metis sort_result_def size_mset)

lemma sort_result_merge:
  assumes "sort_result cmp a ya" "sort_result cmp b yb"
  shows "sort_result cmp (a @ b) (merge_runs cmp ya yb)"
  using assms by (auto simp: sort_result_def merge_runs_stable_sorted)

lemma sort_result_short: "length xs < 2 \<Longrightarrow> sort_result cmp xs xs"
  by (cases xs rule: remdups_adj.cases) (simp_all add: sort_result_def)

lemma runs_result_single: "runs_result cmp xs [ys] \<Longrightarrow> sort_result cmp xs ys"
  by (auto simp: runs_result_def sort_result_def)

lemma runs_result_merged:
  assumes m: "merged_once cmp cs cs'" and r: "runs_result cmp xs cs"
  shows "runs_result cmp xs cs'"
proof -
  from m obtain a t u b where cs: "cs = a @ t # u # b" and cs': "cs' = a @ merge_runs cmp t u # b"
    by (auto simp: merged_once_def)
  have ms: "mset (concat cs') = mset xs"
    using r by (auto simp: runs_result_def cs cs' ac_simps)
  have sw: "\<exists>segs. cs' = map (stable_sorted cmp) segs \<and> concat segs = xs"
    if swo: "strict_weak_order cmp"
  proof -
    from r swo obtain segs where segs: "cs = map (stable_sorted cmp) segs" "concat segs = xs"
      by (auto simp: runs_result_def)
    from segs(1) [unfolded cs] obtain sa st su sb where
      s: "segs = sa @ st # su # sb" "a = map (stable_sorted cmp) sa" "t = stable_sorted cmp st"
        "u = stable_sorted cmp su" "b = map (stable_sorted cmp) sb"
      by (auto simp: append_eq_map_conv Cons_eq_map_conv)
    have "cs' = map (stable_sorted cmp) (sa @ (st @ su) # sb)"
      using s swo by (simp add: cs' merge_runs_stable_sorted)
    moreover have "concat (sa @ (st @ su) # sb) = xs"
      using s segs(2) by simp
    ultimately show ?thesis
      by blast
  qed
  from ms sw show ?thesis
    by (simp add: runs_result_def)
qed

lemma mset_ascending_form [simp]: "mset (ascending_form cmp r) = mset r"
  by (simp add: ascending_form_def split: list.splits)

lemma length_ascending_form [simp]: "length (ascending_form cmp r) = length r"
  by (metis mset_ascending_form size_mset)

lemma mset_concat_map_ascending_form:
  "mset (concat (map (ascending_form cmp) rs)) = mset (concat rs)"
  by (induction rs) simp_all

lemma runs_result_scan:
  "runs_result cmp xs (map (ascending_form cmp) (natural_runs cmp xs))"
  unfolding runs_result_def
  using concat_natural_runs [of cmp xs]
  by (auto simp: mset_concat_map_ascending_form map_ascending_form_stable_sorted)

lemma initial_state_inv:
  assumes hF: "h bF = preF @ concat runs @ postF"
    and hB: "h bB = preB @ B @ postB"
    and lB: "length B = length (concat runs)"
    and ne: "bF \<noteq> bB"
    and qi: "queue_inv q"
    and pq: "pending q = map run_len runs"
    and runs: "runs \<noteq> []"
    and n64: "length (concat runs) < 2 ^ 64"
  shows "merge_inv cmp (bF, length preF) (bB, length preB)
           (\<lambda>b. if b = bF then preF else preB) (\<lambda>b. if b = bF then postF else postB)
           (initial_state h q (bF, length preF) (bF, length preF + length (concat runs))
              (bB, length preB)) [] runs"
proof -
  let ?first = "(bF, length preF)" and ?last = "(bF, length preF + length (concat runs))"
    and ?buffer = "(bB, length preB)"
  let ?st = "initial_state h q ?first ?last ?buffer"
  have sz: "unat (queue_size q) = length runs"
    using length_pending [of q] pq by (simp add: queue_size_def)
  then have "1 \<le> queue_size q"
    using runs by (cases runs) (simp_all add: word_le_nat_alt)
  from get_pass_amount_ceillog2 [OF this] sz
  have gp: "unat (get_pass_amount (queue_size q)) = ceillog2 (length runs)"
    by simp
  have rg: "range_of h ?first ?last = concat runs"
    using range_of_app [where h = h and b = bF and pre = preF
        and X = "concat runs" and post = postF, OF hF]
    by simp
  have cp: "std_copy h ?first ?last ?buffer = h (bB := preB @ concat runs @ postB)"
    using write_range_app [where h = h and b = bB and pre = preB and X = B and post = postB
        and vs = "concat runs", OF hB] lB
    by (simp add: std_copy_def rg)
  show ?thesis
  proof (cases "odd (ceillog2 (length runs))")
    case True
    then have st: "?st = \<lparr>heap = h (bB := preB @ concat runs @ postB), queue = q,
        source = ?buffer, target = ?first, runs_left = queue_size q, offset = 0\<rparr>"
      by (simp add: initial_state_def word_and_one_odd gp cp)
    show ?thesis
    proof (rule merge_invI [where Sx = "[]" and Ty = "concat runs"])
      show "heap ?st (fst (source ?st)) =
          (if fst (source ?st) = bF then preF else preB) @
          ([] @ concat runs) @ (if fst (source ?st) = bF then postF else postB)"
        using ne by (simp add: st)
      show "heap ?st (fst (target ?st)) =
          (if fst (target ?st) = bF then preF else preB) @
          (concat [] @ concat runs) @
          (if fst (target ?st) = bF then postF else postB)"
        using ne hF by (simp add: st)
      show "(source ?st = ?first) = even (passes_left (length ([] :: 'a list list)) (length runs))"
        using True ne by (simp add: st passes_left_start)
    qed (use ne qi pq sz runs n64 in \<open>simp_all add: st\<close>)
  next
    case False
    then have st: "?st = \<lparr>heap = h, queue = q,
        source = ?first, target = ?buffer, runs_left = queue_size q, offset = 0\<rparr>"
      by (simp add: initial_state_def word_and_one_odd gp)
    show ?thesis
    proof (rule merge_invI [where Sx = "[]" and Ty = B])
      show "heap ?st (fst (source ?st)) =
          (if fst (source ?st) = bF then preF else preB) @
          ([] @ concat runs) @ (if fst (source ?st) = bF then postF else postB)"
        using ne hF by (simp add: st)
      show "heap ?st (fst (target ?st)) =
          (if fst (target ?st) = bF then preF else preB) @
          (concat [] @ B) @
          (if fst (target ?st) = bF then postF else postB)"
        using ne hB by (simp add: st)
      show "(source ?st = ?first) = even (passes_left (length ([] :: 'a list list)) (length runs))"
        using False ne by (simp add: st passes_left_start)
    qed (use ne qi pq sz runs n64 lB in \<open>simp_all add: st\<close>)
  qed
qed

lemma of_nat_less_2: "n < 2 ^ 64 \<Longrightarrow> ((of_nat n :: size_t) < 2) = (n < 2)"
  by (simp add: word_less_nat_alt unat_of_nat)

text \<open>The state in which the merge loop of \<open>natural_merge_sort_impl\<close> starts, for an input
  of at least two elements.\<close>

lemma impl_initial_state:
  assumes hF: "h bF = preF @ xs @ postF"
    and hB: "h bB = preB @ B @ postB"
    and lB: "length B = length xs"
    and ne: "bF \<noteq> bB"
    and n64: "length xs < 2 ^ 64"
    and n2: "2 \<le> length xs"
  shows "\<exists>q. build_run_size_queue cmp h (bF, length preF) (bF, length preF + length xs) =
            Some (h (bF := preF @ concat (map (ascending_form cmp) (natural_runs cmp xs)) @ postF), q)
          \<and> pending q = map run_len (natural_runs cmp xs)
          \<and> capacity q = 2 ^ ceillog2 (max (length xs div 2 + 1) 256)
          \<and> merge_inv cmp (bF, length preF) (bB, length preB)
               (\<lambda>b. if b = bF then preF else preB) (\<lambda>b. if b = bF then postF else postB)
               (initial_state
                  (h (bF := preF @ concat (map (ascending_form cmp) (natural_runs cmp xs)) @ postF))
                  q (bF, length preF) (bF, length preF + length xs) (bB, length preB))
               [] (map (ascending_form cmp) (natural_runs cmp xs))"
proof -
  let ?runs = "natural_runs cmp xs"
  let ?cs = "map (ascending_form cmp) ?runs"
  let ?h1 = "h (bF := preF @ concat ?cs @ postF)"
  from build_run_size_queue_correct [where h = h and b = bF and pre = preF and xs = xs
      and post = postF and cmp = cmp, OF hF n2 n64]
  obtain q where b: "build_run_size_queue cmp h (bF, length preF) (bF, length preF + length xs)
        = Some (?h1, q)"
    and qi: "queue_inv q" and pq: "pending q = map run_len ?runs"
    and cap: "capacity q = 2 ^ ceillog2 (max (length xs div 2 + 1) 256)"
    by blast
  have h1F: "?h1 bF = preF @ concat ?cs @ postF"
    by simp
  have h1B: "?h1 bB = preB @ B @ postB"
    using ne hB by simp
  have "mset (concat ?cs) = mset xs"
    using concat_natural_runs [of cmp xs] by (simp add: mset_concat_map_ascending_form)
  then have lc: "length (concat ?cs) = length xs"
    by (metis size_mset)
  have rne: "?cs \<noteq> []"
    using n2 by (auto simp: natural_runs_Nil_iff)
  have pq': "pending q = map run_len ?cs"
    using pq by (simp add: comp_def)
  have inv: "merge_inv cmp (bF, length preF) (bB, length preB)
      (\<lambda>b. if b = bF then preF else preB) (\<lambda>b. if b = bF then postF else postB)
      (initial_state ?h1 q (bF, length preF) (bF, length preF + length xs) (bB, length preB))
      [] ?cs"
    using initial_state_inv [where h = ?h1 and runs = ?cs and B = B and cmp = cmp,
        OF h1F h1B _ ne qi pq' rne] lB n64
    by (simp only: lc)
  from b pq cap inv show ?thesis
    by blast
qed

theorem natural_merge_sort_impl_correct:
  assumes hF: "h bF = preF @ xs @ postF"
    and hB: "h bB = preB @ B @ postB"
    and lB: "length B = length xs"
    and ne: "bF \<noteq> bB"
    and n64: "length xs < 2 ^ 64"
  shows "\<exists>h' ys B'. natural_merge_sort_impl cmp h (bF, length preF) (bF, length preF + length xs)
                 (bB, length preB) = Some h'
           \<and> h' bF = preF @ ys @ postF \<and> sort_result cmp xs ys
           \<and> h' bB = preB @ B' @ postB \<and> length B' = length xs"
proof (cases "length xs < 2")
  case True
  then have "sort_result cmp xs xs"
    by (rule sort_result_short)
  with True hF hB lB n64 show ?thesis
    by (auto simp: natural_merge_sort_impl_def distance_def of_nat_less_2)
next
  case False
  then have n2: "2 \<le> length xs" by simp
  let ?cs = "map (ascending_form cmp) (natural_runs cmp xs)"
  let ?h1 = "h (bF := preF @ concat ?cs @ postF)"
  from impl_initial_state [OF hF hB lB ne n64 n2, of cmp] obtain q where
    b: "build_run_size_queue cmp h (bF, length preF) (bF, length preF + length xs) = Some (?h1, q)"
    and inv: "merge_inv cmp (bF, length preF) (bB, length preB)
      (\<lambda>b. if b = bF then preF else preB) (\<lambda>b. if b = bF then postF else postB)
      (initial_state ?h1 q (bF, length preF) (bF, length preF + length xs) (bB, length preB))
      [] ?cs"
    by blast
  let ?st = "initial_state ?h1 q (bF, length preF) (bF, length preF + length xs) (bB, length preB)"
  have clo: "\<forall>cs cs'. merged_once cmp cs cs' \<longrightarrow> runs_result cmp xs cs \<longrightarrow> runs_result cmp xs cs'"
    using runs_result_merged by blast
  have q0: "runs_result cmp xs ([] @ ?cs)"
    using runs_result_scan [of cmp xs] by simp
  from merge_loop_correct(2) [OF clo inv q0] ne obtain c B' where
    fin: "heap (merge_loop cmp ?st) bF = preF @ c @ postF" "runs_result cmp xs [c]"
      "heap (merge_loop cmp ?st) bB = preB @ B' @ postB" "length B' = length c"
    by auto
  have sr: "sort_result cmp xs c"
    using fin(2) by (rule runs_result_single)
  have res: "natural_merge_sort_impl cmp h (bF, length preF) (bF, length preF + length xs)
                 (bB, length preB) = Some (heap (merge_loop cmp ?st))"
    using False n64 by (simp add: natural_merge_sort_impl_def distance_def of_nat_less_2 b)
  from res fin sr sort_result_length [OF sr] show ?thesis
    by auto
qed

lemma std_merge_halves:
  assumes hS: "h bS = preS @ A @ B @ postS"
    and hT: "h bT = preT @ X @ postT"
    and lX: "length X = length A + length B"
  shows "std_merge h (bS, length preS) (bS, length preS + length A)
           (bS, length preS + length A) (bS, length preS + length A + length B)
           (bT, length preT) cmp
         = h (bT := preT @ merge_runs cmp A B @ postT)"
proof -
  have r1: "range_of h (bS, length preS) (bS, length preS + length A) = A"
    using range_of_app [where h = h and b = bS and pre = preS and X = A and post = "B @ postS",
        OF hS] .
  have hS2: "h bS = (preS @ A) @ B @ postS"
    using hS by simp
  have r2: "range_of h (bS, length preS + length A) (bS, length preS + length A + length B) = B"
    using range_of_app [where h = h and b = bS and pre = "preS @ A" and X = B and post = postS,
        OF hS2] by simp
  show ?thesis
    using write_range_app [where h = h and b = bT and pre = preT and X = X and post = postT
        and vs = "merge_runs cmp A B", OF hT] lX
    by (simp add: std_merge_def r1 r2)
qed

lemma unat_of_nat_half: "n < 2 ^ 64 \<Longrightarrow> unat ((of_nat n :: size_t) div 2) = n div 2"
  by (simp add: unat_div unat_of_nat)

lemma of_nat_half: "n < 2 ^ 64 \<Longrightarrow> (of_nat n :: size_t) div 2 = of_nat (n div 2)"
  by (simp add: word_unat_eq_iff unat_div unat_of_nat)

lemma of_nat_minus_half:
  "n < 2 ^ 64 \<Longrightarrow> (of_nat n :: size_t) - of_nat n div 2 = of_nat (n - n div 2)"
  by (simp add: of_nat_half)

theorem parallel_impl_correct:
  "1 \<le> unat thread_quota \<Longrightarrow>
   h bS = preS @ xs @ postS \<Longrightarrow> h bT = preT @ xs @ postT \<Longrightarrow> bS \<noteq> bT \<Longrightarrow>
   length xs < 2 ^ 64 \<Longrightarrow>
   \<exists>h' ys X. parallel_natural_merge_sort_impl cmp h (bS, length preS) (bT, length preT)
           (of_nat (length xs)) thread_quota = Some h'
      \<and> h' bT = preT @ ys @ postT \<and> sort_result cmp xs ys
      \<and> h' bS = preS @ X @ postS \<and> length X = length xs"
proof (induction "unat thread_quota" arbitrary: thread_quota h bS bT preS postS preT postT xs
    rule: less_induct)
  case less
  note q1 = less.prems(1) and hS = less.prems(2) and hT = less.prems(3)
    and ne = less.prems(4) and n64 = less.prems(5)
  let ?n = "length xs"
  let ?m = "?n div 2"
  have un: "unat (of_nat ?n :: size_t) = ?n"
    using n64 by (simp add: unat_of_nat)
  have um: "unat ((of_nat ?n :: size_t) div 2) = ?m"
    using n64 by (rule unat_of_nat_half)
  define xl where "xl = take ?m xs"
  define xr where "xr = drop ?m xs"
  have xs: "xs = xl @ xr" and ll: "length xl = ?m" and lr: "length xr = ?n - ?m"
    by (simp_all add: xl_def xr_def)
  have l64: "length xl < 2 ^ 64" "length xr < 2 ^ 64"
    using n64 ll lr by simp_all
  text \<open>The merge that ends the two recursive cases.\<close>
  have final: "\<exists>h' ys X. h' = h2 (bT := preT @ merge_runs cmp yl yr @ postT)
      \<and> std_merge h2 (bS, length preS) (bS, length preS + ?m)
           (bS, length preS + ?m) (bS, length preS + ?n) (bT, length preT) cmp = h'
      \<and> h' bT = preT @ ys @ postT \<and> sort_result cmp xs ys
      \<and> h' bS = preS @ X @ postS \<and> length X = length xs"
    if h2S: "h2 bS = (preS @ yl) @ yr @ postS" and h2T: "h2 bT = (preT @ X1) @ X2 @ postT"
      and sl: "sort_result cmp xl yl" and sr: "sort_result cmp xr yr"
      and lX1: "length X1 = length xl" and lX2: "length X2 = length xr"
    for h2 yl yr X1 X2
  proof -
    have lyl: "length yl = ?m" and lyr: "length yr = ?n - ?m"
      using sort_result_length [OF sl] sort_result_length [OF sr] ll lr by simp_all
    have h2S': "h2 bS = preS @ yl @ yr @ postS" and h2T': "h2 bT = preT @ (X1 @ X2) @ postT"
      using h2S h2T by simp_all
    have "std_merge h2 (bS, length preS) (bS, length preS + length yl)
           (bS, length preS + length yl) (bS, length preS + length yl + length yr)
           (bT, length preT) cmp
         = h2 (bT := preT @ merge_runs cmp yl yr @ postT)"
      using lX1 lX2 lyl lyr ll lr by (intro std_merge_halves [OF h2S' h2T']) simp
    then have mg: "std_merge h2 (bS, length preS) (bS, length preS + ?m)
           (bS, length preS + ?m) (bS, length preS + ?n) (bT, length preT) cmp
         = h2 (bT := preT @ merge_runs cmp yl yr @ postT)"
      by (simp add: lyl lyr)
    have "sort_result cmp xs (merge_runs cmp yl yr)"
      using sort_result_merge [OF sl sr] xs by simp
    moreover have "(h2 (bT := preT @ merge_runs cmp yl yr @ postT)) bS = preS @ (yl @ yr) @ postS"
      using ne h2S' by simp
    moreover have "length (yl @ yr) = ?n"
      using lyl lyr by simp
    ultimately show ?thesis
      using mg by (intro exI [of _ "h2 (bT := preT @ merge_runs cmp yl yr @ postT)"]
          exI [of _ "merge_runs cmp yl yr"] exI [of _ "yl @ yr"]) simp
  qed
  have hS1: "h bS = preS @ xl @ (xr @ postS)" and hT1: "h bT = preT @ xl @ (xr @ postT)"
    using hS hT xs by simp_all
  show ?case
  proof (cases "thread_quota = 1")
    case True
    from natural_merge_sort_impl_correct [where h = h and bF = bT and bB = bS and preF = preT
        and xs = xs and postF = postT and preB = preS and B = xs and postB = postS and cmp = cmp,
        OF hT hS refl ne [symmetric] n64]
    show ?thesis
      using True by (subst parallel_natural_merge_sort_impl.simps) (simp add: un it_add_def)
  next
    case not1: False
    show ?thesis
    proof (cases "thread_quota = 2")
      case True
      from natural_merge_sort_impl_correct [where h = h and bF = bS and bB = bT and preF = preS
          and xs = xl and postF = "xr @ postS" and preB = preT and B = xl and postB = "xr @ postT"
          and cmp = cmp, OF hS1 hT1 refl ne l64(1)]
      obtain h1 yl B1 where c1: "natural_merge_sort_impl cmp h (bS, length preS)
            (bS, length preS + length xl) (bT, length preT) = Some h1"
        and h1S: "h1 bS = preS @ yl @ (xr @ postS)" and sl: "sort_result cmp xl yl"
        and h1T: "h1 bT = preT @ B1 @ (xr @ postT)" and lB1: "length B1 = length xl"
        by blast
      have lyl: "length yl = length xl"
        using sl by (rule sort_result_length)
      have h1S': "h1 bS = (preS @ yl) @ xr @ postS" and h1T': "h1 bT = (preT @ B1) @ xr @ postT"
        using h1S h1T by simp_all
      from natural_merge_sort_impl_correct [where h = h1 and bF = bS and bB = bT
          and preF = "preS @ yl" and xs = xr and postF = postS and preB = "preT @ B1"
          and B = xr and postB = postT and cmp = cmp, OF h1S' h1T' refl ne l64(2)]
      obtain h2 yr B2 where c2: "natural_merge_sort_impl cmp h1 (bS, length (preS @ yl))
            (bS, length (preS @ yl) + length xr) (bT, length (preT @ B1)) = Some h2"
        and h2S: "h2 bS = (preS @ yl) @ yr @ postS" and sr: "sort_result cmp xr yr"
        and h2T: "h2 bT = (preT @ B1) @ B2 @ postT" and lB2: "length B2 = length xr"
        by blast
      have c1': "natural_merge_sort_impl cmp h (bS, length preS)
            (bS, length preS + ?m) (bT, length preT) = Some h1"
        using c1 by (simp only: ll)
      have c2': "natural_merge_sort_impl cmp h1 (bS, length preS + ?m)
            (bS, length preS + ?n) (bT, length preT + ?m) = Some h2"
        using c2 by (simp add: ll lr lB1 lyl)
      from final [OF h2S h2T sl sr lB1 lB2] obtain h' ys X where
        f: "std_merge h2 (bS, length preS) (bS, length preS + ?m)
           (bS, length preS + ?m) (bS, length preS + ?n) (bT, length preT) cmp = h'"
          "h' bT = preT @ ys @ postT" "sort_result cmp xs ys"
          "h' bS = preS @ X @ postS" "length X = length xs"
        by blast
      have res: "parallel_natural_merge_sort_impl cmp h (bS, length preS) (bT, length preT)
           (of_nat ?n) thread_quota = Some h'"
        unfolding True
        by (subst parallel_natural_merge_sort_impl.simps)
           (simp add: un um it_add_def c1' c2' f(1))
      with f show ?thesis
        by blast
    next
      case not2: False
      have "unat thread_quota \<noteq> 1" "unat thread_quota \<noteq> 2"
        using not1 not2 by (simp_all add: word_unat_eq_iff)
      with q1 have q3: "3 \<le> unat thread_quota"
        by linarith
      define lq where "lq = thread_quota div 2"
      define rq where "rq = thread_quota - thread_quota div 2"
      have ulq: "unat lq = unat thread_quota div 2"
        by (simp add: lq_def unat_div)
      have "thread_quota div 2 \<le> thread_quota"
        by (simp add: word_le_nat_alt unat_div)
      then have urq: "unat rq = unat thread_quota - unat thread_quota div 2"
        by (simp add: rq_def unat_sub unat_div)
      have lq: "unat lq < unat thread_quota" "1 \<le> unat lq"
        using q3 ulq by simp_all
      have rq: "unat rq < unat thread_quota" "1 \<le> unat rq"
        using q3 urq by simp_all
      from less.hyps [OF lq(1) lq(2), where h = h and bS = bT and preS = preT and xs = xl
          and postS = "xr @ postT" and bT = bS and preT = preS and postT = "xr @ postS",
          OF hT1 hS1 ne [symmetric] l64(1)]
      obtain h1 yl X1 where c1: "parallel_natural_merge_sort_impl cmp h (bT, length preT)
            (bS, length preS) (of_nat (length xl)) lq = Some h1"
        and h1S: "h1 bS = preS @ yl @ (xr @ postS)" and sl: "sort_result cmp xl yl"
        and h1T: "h1 bT = preT @ X1 @ (xr @ postT)" and lX1: "length X1 = length xl"
        by blast
      have lyl: "length yl = length xl"
        using sl by (rule sort_result_length)
      have h1S': "h1 bS = (preS @ yl) @ xr @ postS" and h1T': "h1 bT = (preT @ X1) @ xr @ postT"
        using h1S h1T by simp_all
      from less.hyps [OF rq(1) rq(2), where h = h1 and bS = bT and preS = "preT @ X1"
          and xs = xr and postS = postT and bT = bS and preT = "preS @ yl" and postT = postS,
          OF h1T' h1S' ne [symmetric] l64(2)]
      obtain h2 yr X2 where c2: "parallel_natural_merge_sort_impl cmp h1 (bT, length (preT @ X1))
            (bS, length (preS @ yl)) (of_nat (length xr)) rq = Some h2"
        and h2S: "h2 bS = (preS @ yl) @ yr @ postS" and sr: "sort_result cmp xr yr"
        and h2T: "h2 bT = (preT @ X1) @ X2 @ postT" and lX2: "length X2 = length xr"
        by blast
      have c1': "parallel_natural_merge_sort_impl cmp h (bT, length preT)
            (bS, length preS) (of_nat ?n div 2) (thread_quota div 2) = Some h1"
        using c1 n64 by (simp only: ll of_nat_half lq_def)
      have c2': "parallel_natural_merge_sort_impl cmp h1 (bT, length preT + ?m)
            (bS, length preS + ?m) (of_nat ?n - of_nat ?n div 2)
            (thread_quota - thread_quota div 2) = Some h2"
        using c2 n64 by (simp add: ll lr lX1 lyl of_nat_minus_half rq_def)
      from final [OF h2S h2T sl sr lX1 lX2] obtain h' ys X where
        f: "std_merge h2 (bS, length preS) (bS, length preS + ?m)
           (bS, length preS + ?m) (bS, length preS + ?n) (bT, length preT) cmp = h'"
          "h' bT = preT @ ys @ postT" "sort_result cmp xs ys"
          "h' bS = preS @ X @ postS" "length X = length xs"
        by blast
      have res: "parallel_natural_merge_sort_impl cmp h (bS, length preS) (bT, length preT)
           (of_nat ?n) thread_quota = Some h'"
        using not1 not2
        by (subst parallel_natural_merge_sort_impl.simps)
           (simp add: un um it_add_def c1' c2' f(1))
      with f show ?thesis
        by blast
    qed
  qed
qed

lemma length_new_array [simp]: "length (new_array uninit n) = n"
  by (simp add: new_array_def)

theorem natural_merge_sort_correct:
  assumes hC: "h Caller = pre @ xs @ post" and n64: "length xs < 2 ^ 64"
  shows "\<exists>h' ys. natural_merge_sort uninit cmp h (Caller, length pre)
                 (Caller, length pre + length xs) = Some h'
           \<and> h' Caller = pre @ ys @ post \<and> sort_result cmp xs ys"
proof (cases "length xs < 2")
  case True
  then have "sort_result cmp xs xs"
    by (rule sort_result_short)
  with True hC n64 show ?thesis
    by (auto simp: natural_merge_sort_def distance_def of_nat_less_2)
next
  case False
  let ?h1 = "h (Scratch := new_array uninit (length xs))"
  have h1C: "?h1 Caller = pre @ xs @ post"
    using hC by simp
  have h1S: "?h1 Scratch = [] @ new_array uninit (length xs) @ []"
    by simp
  from natural_merge_sort_impl_correct [where h = ?h1 and bF = Caller and bB = Scratch
      and preF = pre and xs = xs and postF = post and preB = "[]"
      and B = "new_array uninit (length xs)" and postB = "[]" and cmp = cmp,
      OF h1C h1S _ _ n64]
  obtain h2 ys where "natural_merge_sort_impl cmp ?h1 (Caller, length pre)
        (Caller, length pre + length xs) (Scratch, 0) = Some h2"
    and "h2 Caller = pre @ ys @ post" and "sort_result cmp xs ys"
    by auto
  with False n64 show ?thesis
    by (simp add: natural_merge_sort_def distance_def of_nat_less_2 unat_of_nat)
qed

theorem parallel_natural_merge_sort_correct:
  assumes hC: "h Caller = pre @ xs @ post" and n64: "length xs < 2 ^ 64"
  shows "\<exists>h' ys. parallel_natural_merge_sort cores uninit cmp h (Caller, length pre)
                 (Caller, length pre + length xs) = Some h'
           \<and> h' Caller = pre @ ys @ post \<and> sort_result cmp xs ys"
proof (cases "min cores (of_nat (length xs) div MINIMUM_THREAD_LOAD) < 2")
  case True
  with natural_merge_sort_correct [where h = h and pre = pre and xs = xs and post = post
      and uninit = uninit and cmp = cmp, OF hC n64] show ?thesis
    by (simp add: parallel_natural_merge_sort_def distance_def)
next
  case False
  let ?spawn = "min cores (of_nat (length xs) div MINIMUM_THREAD_LOAD)"
  from False have "2 \<le> unat ?spawn"
    by (simp add: word_less_nat_alt)
  then have q1: "1 \<le> unat ?spawn"
    by simp
  let ?h1 = "h (Scratch := new_array uninit (length xs))"
  have h1S: "?h1 Scratch = [] @ new_array uninit (length xs) @ []"
    by simp
  have rg: "range_of ?h1 (Caller, length pre) (Caller, length pre + length xs) = xs"
    using range_of_app [where h = ?h1 and b = Caller and pre = pre and X = xs and post = post]
      hC by simp
  have cp: "std_copy ?h1 (Caller, length pre) (Caller, length pre + length xs) (Scratch, 0)
      = ?h1 (Scratch := xs)"
    using write_range_app [where h = ?h1 and b = Scratch and pre = "[]"
        and X = "new_array uninit (length xs)" and post = "[]" and vs = xs, OF h1S]
    by (simp add: std_copy_def rg)
  let ?h2 = "?h1 (Scratch := xs)"
  have h2S: "?h2 Scratch = [] @ xs @ []" and h2C: "?h2 Caller = pre @ xs @ post"
    using hC by simp_all
  from parallel_impl_correct [where h = ?h2 and bS = Scratch and preS = "[]" and xs = xs
      and postS = "[]" and bT = Caller and preT = pre and postT = post and cmp = cmp,
      OF q1 h2S h2C _ n64]
  obtain h' ys where "parallel_natural_merge_sort_impl cmp ?h2 (Scratch, 0) (Caller, length pre)
        (of_nat (length xs)) ?spawn = Some h'"
    and "h' Caller = pre @ ys @ post" and "sort_result cmp xs ys"
    by auto
  with False n64 show ?thesis
    by (simp add: parallel_natural_merge_sort_def distance_def unat_of_nat cp Let_def)
qed

lemma range_of_caller:
  "h Caller = pre @ ys @ post \<Longrightarrow> length ys = n \<Longrightarrow>
   range_of h (Caller, length pre) (Caller, length pre + n) = ys"
  using range_of_app [where h = h and b = Caller and pre = pre and X = ys and post = post]
  by simp

lemma call_within_mono:
  "call_within c n k \<Longrightarrow> n \<le> n' \<Longrightarrow> call_within c n' k"
  by (auto simp: call_within_def)

lemma list_all_call_within_mono:
  "list_all (call_within c n) ks \<Longrightarrow> n \<le> n' \<Longrightarrow> list_all (call_within c n') ks"
  by (induction ks) (auto intro: call_within_mono)

lemma queue_inv_tail_index:
  assumes "queue_inv q"
  shows "unat (m_tail q AND m_mask q) < capacity q"
proof -
  from assms obtain k where k: "k < 64" "capacity q = 2 ^ k" "m_mask q = 2 ^ k - 1"
    by (auto simp: queue_inv_def)
  have "unat (m_tail q AND (2 ^ k - 1)) = unat (m_tail q) mod 2 ^ k"
    using k(1) by (rule unat_and_pow_mask)
  then show ?thesis
    using k by simp
qed

lemma queue_inv_head_index: "queue_inv q \<Longrightarrow> unat (m_head q) < capacity q"
  by (simp add: queue_inv_def)

lemma enqueue_call_within:
  "queue_inv q \<Longrightarrow> unat (m_size q) < capacity q \<Longrightarrow> unat (m_size q) \<le> n \<Longrightarrow>
   call_within (capacity q) n (Enqueue q)"
  by (simp add: call_within_def queue_inv_tail_index)

lemma dequeue_call_within:
  "queue_inv q \<Longrightarrow> m_size q \<noteq> 0 \<Longrightarrow> unat (m_size q) \<le> n \<Longrightarrow>
   call_within (capacity q) n (Dequeue q)"
  by (simp add: call_within_def queue_inv_head_index)

lemma scan_body_run:
  assumes h: "h b = pre @ (x # y # ys) @ post"
    and s: "split_run (if cmp y x then (\<lambda>a b. cmp b a) else (\<lambda>a b. \<not> cmp b a)) y ys = (r, rest)"
  shows "scan_body cmp (b, length pre + length (x # y # ys) - 1)
           (h, q, (b, length pre), (b, Suc (length pre))) =
         (h (b := (pre @ ascending_form cmp (x # r)) @ rest @ post),
          enqueue q (of_nat (length (x # r))),
          (b, length (pre @ ascending_form cmp (x # r))),
          (b, Suc (length (pre @ ascending_form cmp (x # r)))))"
proof -
  let ?P = "if cmp y x then (\<lambda>a b. cmp b a) else (\<lambda>a b. \<not> cmp b a)"
  let ?lst = "(b, length pre + length (x # y # ys) - 1)"
  from split_run_append [OF s] have app: "r @ rest = y # ys" .
  from split_run_hd [OF s] obtain r' where r': "r = y # r'"
    by blast
  have hb: "h b = (pre @ [x]) @ (y # ys) @ post"
    using h by simp
  have hr: "h b = pre @ (x # r) @ (rest @ post)"
    using h app by simp
  have dl: "deref h (b, length pre) = x"
    using h by (simp add: deref_def)
  have dr: "deref h (b, Suc (length pre)) = y"
    using h by (simp add: deref_def nth_append)
  have laf: "length (ascending_form cmp (x # r)) = length (x # r)"
    by (simp add: ascending_form_def split: list.splits)
  show ?thesis
  proof (cases "cmp y x")
    case True
    then have P: "?P = (\<lambda>a b. cmp b a)" by simp
    have sd: "scan_descending cmp h ?lst (b, Suc (length pre)) (b, Suc (Suc (length pre))) =
        ((b, length pre + length r), (b, Suc (length pre + length r)))"
      using scan_descending_split [where h = h and b = b and pre = "pre @ [x]" and y = y
          and zs = ys and post = post and cmp = cmp, OF hb] s r' unfolding P by simp
    have rv: "std_reverse h (b, length pre) (b, Suc (length pre + length r)) =
        h (b := pre @ rev (x # r) @ rest @ post)"
      using range_of_app [where h = h and b = b and pre = pre and X = "x # r"
          and post = "rest @ post", OF hr]
        write_range_app [where h = h and b = b and pre = pre and X = "x # r"
          and post = "rest @ post" and vs = "rev (x # r)", OF hr]
      by (simp add: std_reverse_def)
    from True r' have "ascending_form cmp (x # r) = rev (x # r)"
      by (simp add: ascending_form_desc)
    with True dl dr sd rv show ?thesis
      by (simp add: scan_body_def it_add_def distance_def)
  next
    case False
    then have P: "?P = (\<lambda>a b. \<not> cmp b a)" by simp
    have sa: "scan_ascending cmp h ?lst (b, Suc (length pre)) (b, Suc (Suc (length pre))) =
        ((b, length pre + length r), (b, Suc (length pre + length r)))"
      using scan_ascending_split [where h = h and b = b and pre = "pre @ [x]" and y = y
          and zs = ys and post = post and cmp = cmp, OF hb] s r' unfolding P by simp
    have "h = h (b := pre @ (x # r) @ rest @ post)"
      using hr by auto
    moreover from False r' have "ascending_form cmp (x # r) = x # r"
      by (simp add: ascending_form_asc)
    ultimately show ?thesis using False dl dr sa
      by (simp add: scan_body_def it_add_def distance_def)
  qed
qed

lemma scan_calls_within:
  "h b = pre @ ys @ post \<Longrightarrow> 0 < length pre + length ys \<Longrightarrow> queue_inv q \<Longrightarrow>
   unat (m_size q) + length (natural_runs cmp ys) \<le> capacity q \<Longrightarrow>
   list_all (call_within (capacity q) (unat (m_size q) + length (natural_runs cmp ys)))
     (scan_calls cmp (b, length pre + length ys - 1) (h, q, (b, length pre), (b, Suc (length pre)))
      @ finish_calls (b, length pre + length ys - 1)
          (scan_loop cmp (b, length pre + length ys - 1)
             (h, q, (b, length pre), (b, Suc (length pre)))))"
proof (induction cmp ys arbitrary: h pre q rule: natural_runs.induct)
  case (1 cmp)
  then have "length pre \<noteq> length pre - 1"
    by (cases pre) simp_all
  then show ?case
    by (subst scan_calls.simps, subst scan_loop.simps)
       (auto simp: finish_calls_def it_less_def)
next
  case (2 cmp x)
  then have room: "unat (m_size q) < capacity q"
    by simp
  from enqueue_call_within [OF "2.prems"(3) room, of "unat (m_size q) + 1"]
  show ?case
    by (subst scan_calls.simps, subst scan_loop.simps)
       (simp add: finish_calls_def it_less_def)
next
  case (3 cmp x y ys)
  let ?P = "if cmp y x then (\<lambda>a b. cmp b a) else (\<lambda>a b. \<not> cmp b a)"
  let ?lst = "(b, length pre + length (x # y # ys) - 1)"
  obtain r rest where s: "split_run ?P y ys = (r, rest)"
    by (cases "split_run ?P y ys")
  from split_run_append [OF s] have app: "r @ rest = y # ys" .
  then have len: "length r + length rest = Suc (length ys)"
    by (metis length_append length_Cons)
  have runs: "natural_runs cmp (x # y # ys) = (x # r) # natural_runs cmp rest"
    using s by simp
  have nruns: "length (natural_runs cmp (x # y # ys)) = Suc (length (natural_runs cmp rest))"
    by (subst runs) simp
  have room: "unat (m_size q) < capacity q"
    using "3.prems"(4) nruns by simp
  define q1 where "q1 = enqueue q (of_nat (length (x # r)))"
  note enq = enqueue_correct [OF "3.prems"(3) room, of "of_nat (length (x # r))", folded q1_def]
  define pre1 where "pre1 = pre @ ascending_form cmp (x # r)"
  define h1 where "h1 = h (b := pre1 @ rest @ post)"
  have laf: "length (ascending_form cmp (x # r)) = length (x # r)"
    by (simp add: ascending_form_def split: list.splits)
  have lpre1: "length pre1 = length pre + length (x # r)"
    by (simp add: pre1_def laf)
  have body: "scan_body cmp ?lst (h, q, (b, length pre), (b, Suc (length pre))) =
      (h1, q1, (b, length pre1), (b, Suc (length pre1)))"
    using scan_body_run [where h = h and b = b and pre = pre and x = x and y = y and ys = ys
        and post = post and cmp = cmp and r = r and rest = rest and q = q, OF "3.prems"(1) s]
    by (simp only: h1_def pre1_def q1_def)
  have h1: "h1 b = pre1 @ rest @ post"
    by (simp add: h1_def)
  have lp: "length pre1 + length rest - 1 = length pre + length (x # y # ys) - 1"
    using lpre1 len by simp
  have pos: "0 < length pre1 + length rest"
    using lpre1 by simp
  have sz1: "unat (m_size q1) \<le> unat (m_size q) + 1"
  proof -
    have "unat (m_size q1) = unat (m_size q + 1)"
      by (simp only: enq(4))
    also have "\<dots> \<le> unat (m_size q) + 1"
      by (simp add: unat_word_ariths)
    finally show ?thesis .
  qed
  have cap1: "unat (m_size q1) + length (natural_runs cmp rest) \<le> capacity q1"
    using sz1 nruns "3.prems"(4) unfolding enq(3) by linarith
  note ih = "3.IH" [OF s [symmetric], of h1 pre1 q1, OF h1 pos enq(1) cap1]
  have bound: "unat (m_size q1) + length (natural_runs cmp rest)
      \<le> unat (m_size q) + length (natural_runs cmp (x # y # ys))"
    using sz1 nruns by linarith
  have rest_ok: "list_all
      (call_within (capacity q) (unat (m_size q) + length (natural_runs cmp (x # y # ys))))
      (scan_calls cmp ?lst (h1, q1, (b, length pre1), (b, Suc (length pre1)))
       @ finish_calls ?lst (scan_loop cmp ?lst (h1, q1, (b, length pre1), (b, Suc (length pre1)))))"
    using list_all_call_within_mono [OF ih bound] by (simp only: lp enq(3))
  have first_ok: "call_within (capacity q)
      (unat (m_size q) + length (natural_runs cmp (x # y # ys))) (Enqueue q)"
    using enqueue_call_within [OF "3.prems"(3) room] by simp
  have less: "it_less (b, length pre) ?lst"
    by (simp add: it_less_def)
  have u1: "scan_loop cmp ?lst (h, q, (b, length pre), (b, Suc (length pre))) =
      scan_loop cmp ?lst (h1, q1, (b, length pre1), (b, Suc (length pre1)))"
    using less body by (subst scan_loop.simps) simp
  have u2: "scan_calls cmp ?lst (h, q, (b, length pre), (b, Suc (length pre))) =
      Enqueue q # scan_calls cmp ?lst (h1, q1, (b, length pre1), (b, Suc (length pre1)))"
    using less body by (subst scan_calls.simps) simp
  show ?case
    using first_ok rest_ok by (simp only: u1 u2) simp
qed

lemma build_calls_within:
  assumes h: "h b = pre @ xs @ post" and n2: "2 \<le> length xs" and n64: "length xs < 2 ^ 64"
  shows "list_all (call_within (2 ^ ceillog2 (max (length xs div 2 + 1) 256))
            (length (natural_runs cmp xs)))
          (build_calls cmp h (b, length pre) (b, length pre + length xs))"
proof -
  let ?n = "length xs"
  let ?c = "(of_nat ?n :: size_t) div 2 + 1"
  have uc: "unat ?c = ?n div 2 + 1"
    using n64 by (rule unat_half_plus_one)
  have "?n div 2 + 1 \<le> 2 ^ 63"
    using n64 by simp
  then have "unat ?c \<le> 2 ^ 63"
    by (simp only: uc)
  from new_UnsafeIntQueue_correct [OF this] obtain q0 where q0:
    "new_UnsafeIntQueue ?c = Some q0" "queue_inv q0" "pending q0 = []"
    "capacity q0 = 2 ^ ceillog2 (max (?n div 2 + 1) 256)" "m_size q0 = 0"
    unfolding uc by blast
  have "max (?n div 2 + 1) 256 \<le> capacity q0"
    unfolding q0(4) by (rule le_two_power_ceillog2)
  moreover have "length (natural_runs cmp xs) \<le> (?n + 1) div 2"
    by (rule length_natural_runs)
  ultimately have room: "unat (m_size q0) + length (natural_runs cmp xs) \<le> capacity q0"
    by (simp add: q0(5))
  have pos: "0 < length pre + ?n"
    using n2 by linarith
  note sc = scan_calls_within [where h = h and b = b and pre = pre and ys = xs and post = post
      and cmp = cmp, OF h pos q0(2) room]
  have d: "distance (b, length pre) (b, length pre + ?n) = ?n"
    by (simp add: distance_def)
  have "build_calls cmp h (b, length pre) (b, length pre + ?n) =
      scan_calls cmp (b, length pre + ?n - 1) (h, q0, (b, length pre), (b, Suc (length pre)))
      @ finish_calls (b, length pre + ?n - 1)
          (scan_loop cmp (b, length pre + ?n - 1) (h, q0, (b, length pre), (b, Suc (length pre))))"
    by (simp add: build_calls_def d it_add_def it_sub_def q0(1) finish_calls_def Let_def)
  with sc show ?thesis
    by (simp add: q0(4,5))
qed

lemma merge_step_queue:
  assumes inv: "queue_inv (queue st)" and gt: "1 < queue_size (queue st)"
  shows "queue_inv (queue (merge_step cmp st))"
    and "capacity (queue (merge_step cmp st)) = capacity (queue st)"
    and "list_all (call_within (capacity (queue st)) (unat (m_size (queue st))))
           (merge_step_calls st)"
proof -
  let ?q = "queue st"
  let ?s = "unat (m_size ?q)"
  from gt have s2: "2 \<le> ?s"
    by (simp add: queue_size_def word_less_nat_alt)
  from inv have le: "?s \<le> capacity ?q"
    by (simp add: queue_inv_def)
  obtain l q1 where d1: "dequeue ?q = (l, q1)"
    by (cases "dequeue ?q")
  obtain r q2 where d2: "dequeue q1 = (r, q2)"
    by (cases "dequeue q1")
  define q3 where "q3 = enqueue q2 (l + r)"
  obtain sl q4 where d3: "dequeue q3 = (sl, q4)"
    by (cases "dequeue q3")
  define q5 where "q5 = enqueue q4 sl"
  have ne0: "m_size ?q \<noteq> 0"
    using s2 by (auto simp: unat_eq_0 [symmetric] simp del: unat_eq_0)
  note a = dequeue_correct [OF inv ne0, unfolded d1 snd_conv fst_conv]
  have u1: "unat (m_size q1) = ?s - 1"
    using ne0 by (simp add: a(5) unat_minus_one)
  have ne1: "m_size q1 \<noteq> 0"
    using s2 u1 by (auto simp: unat_eq_0 [symmetric] simp del: unat_eq_0)
  note b = dequeue_correct [OF a(1) ne1, unfolded d2 snd_conv fst_conv]
  have u2: "unat (m_size q2) = ?s - 2"
    using ne1 u1 by (simp add: b(5) unat_minus_one)
  have room2: "unat (m_size q2) < capacity q2"
    using u2 s2 le by (simp add: b(4) a(4))
  note c = enqueue_correct [OF b(1) room2, of "l + r", folded q3_def]
  have u3: "unat (m_size q3) = ?s - 1"
  proof -
    have "?s < 2 ^ 64"
      using unsigned_less [of "m_size ?q"] by simp
    then have "unat (m_size q2) + 1 < 2 ^ 64"
      using u2 s2 by simp
    then have "unat (m_size q2 + 1) = unat (m_size q2) + 1"
      by (simp add: unat_word_ariths)
    then show ?thesis
      using u2 s2 by (simp add: c(4))
  qed
  have ne3: "m_size q3 \<noteq> 0"
    using s2 u3 by (auto simp: unat_eq_0 [symmetric] simp del: unat_eq_0)
  note d = dequeue_correct [OF c(1) ne3, unfolded d3 snd_conv fst_conv]
  have u4: "unat (m_size q4) = ?s - 2"
    using ne3 u3 by (simp add: d(5) unat_minus_one)
  have room4: "unat (m_size q4) < capacity q4"
    using u4 s2 le by (simp add: d(4) c(3) b(4) a(4))
  note e = enqueue_correct [OF d(1) room4, of sl, folded q5_def]
  have caps: "capacity q1 = capacity ?q" "capacity q2 = capacity ?q" "capacity q3 = capacity ?q"
    "capacity q4 = capacity ?q" "capacity q5 = capacity ?q"
    by (simp_all add: a(4) b(4) c(3) d(4) e(3))
  have k0: "call_within (capacity ?q) ?s (Dequeue ?q)"
    using dequeue_call_within [OF inv ne0, of ?s] by simp
  have k1: "call_within (capacity ?q) ?s (Dequeue q1)"
    using dequeue_call_within [OF a(1) ne1, of ?s] u1 by (simp add: caps)
  have k2: "call_within (capacity ?q) ?s (Enqueue q2)"
    using enqueue_call_within [OF b(1) room2, of ?s] u2 by (simp add: caps)
  have k3: "call_within (capacity ?q) ?s (Dequeue q3)"
    using dequeue_call_within [OF c(1) ne3, of ?s] u3 by (simp add: caps)
  have k4: "call_within (capacity ?q) ?s (Enqueue q4)"
    using enqueue_call_within [OF d(1) room4, of ?s] u4 by (simp add: caps)
  show "list_all (call_within (capacity ?q) ?s) (merge_step_calls st)"
    using k0 k1 k2 k3 k4
    by (simp add: merge_step_calls_def d1 d2 d3 q3_def [symmetric] Let_def)
  have q: "queue (merge_step cmp st) = (if runs_left st - 2 = 1 then q5 else q3)"
    by (simp add: merge_step_def d1 d2 d3 q3_def [symmetric] q5_def [symmetric] Let_def)
  show "queue_inv (queue (merge_step cmp st))"
    using c(1) e(1) by (simp add: q)
  show "capacity (queue (merge_step cmp st)) = capacity ?q"
    using caps by (simp add: q)
qed

lemma merge_calls_within:
  "queue_inv (queue st) \<Longrightarrow>
   list_all (call_within (capacity (queue st)) (unat (m_size (queue st)))) (merge_calls cmp st)"
proof (induction cmp st rule: merge_calls.induct)
  case (1 cmp st)
  show ?case
  proof (cases "1 < queue_size (queue st)")
    case False
    then show ?thesis
      by (subst merge_calls.simps) simp
  next
    case True
    note m = merge_step_queue(1,2) [OF "1.prems" True, of cmp]
      merge_step_queue(3) [OF "1.prems" True]
    from merge_step_size [OF True, of cmp]
    have le: "unat (m_size (queue (merge_step cmp st))) \<le> unat (m_size (queue st))"
      by (simp add: queue_size_def)
    from "1.IH" [OF True m(1)]
    have "list_all (call_within (capacity (queue st)) (unat (m_size (queue (merge_step cmp st)))))
        (merge_calls cmp (merge_step cmp st))"
      by (simp only: m(2))
    from list_all_call_within_mono [OF this le] m(3) True show ?thesis
      by (subst merge_calls.simps) simp
  qed
qed

lemma merge_trace_sizes:
  "st' \<in> set (merge_trace cmp st) \<Longrightarrow>
   unat (queue_size (queue st')) \<le> unat (queue_size (queue st))"
proof (induction cmp st rule: merge_trace.induct)
  case (1 cmp st)
  show ?case
  proof (cases "1 < queue_size (queue st)")
    case False
    with "1.prems" show ?thesis
      by (subst (asm) merge_trace.simps) simp
  next
    case True
    from "1.prems" True have "st' = st \<or> st' \<in> set (merge_trace cmp (merge_step cmp st))"
      by (subst (asm) merge_trace.simps) simp
    then show ?thesis
      using "1.IH" [OF True] merge_step_size [OF True, of cmp] by auto
  qed
qed

lemma merge_trace_decreasing:
  "sorted_wrt (\<lambda>s t. unat (queue_size (queue t)) < unat (queue_size (queue s)))
     (merge_trace cmp st)"
proof (induction cmp st rule: merge_trace.induct)
  case (1 cmp st)
  show ?case
  proof (cases "1 < queue_size (queue st)")
    case False
    then show ?thesis
      by (subst merge_trace.simps) simp
  next
    case True
    have "unat (queue_size (queue t)) < unat (queue_size (queue st))"
      if "t \<in> set (merge_trace cmp (merge_step cmp st))" for t
      using merge_trace_sizes [OF that] merge_step_size [OF True, of cmp] by linarith
    with "1.IH" [OF True] True show ?thesis
      by (subst merge_trace.simps) simp
  qed
qed

lemma sort_calls_within:
  assumes h: "h b = pre @ xs @ post" and n2: "2 \<le> length xs" and n64: "length xs < 2 ^ 64"
  shows "list_all (call_within (2 ^ ceillog2 (max (length xs div 2 + 1) 256))
            (length (natural_runs cmp xs)))
          (sort_calls cmp h (b, length pre) (b, length pre + length xs) buffer)"
proof -
  from build_run_size_queue_correct [where h = h and b = b and pre = pre and xs = xs
      and post = post and cmp = cmp, OF h n2 n64]
  obtain q where q: "build_run_size_queue cmp h (b, length pre) (b, length pre + length xs)
      = Some (h (b := pre @ concat (map (ascending_form cmp) (natural_runs cmp xs)) @ post), q)"
    "queue_inv q" "pending q = map run_len (natural_runs cmp xs)"
    "capacity q = 2 ^ ceillog2 (max (length xs div 2 + 1) 256)"
    by blast
  let ?h1 = "h (b := pre @ concat (map (ascending_form cmp) (natural_runs cmp xs)) @ post)"
  let ?st0 = "initial_state ?h1 q (b, length pre) (b, length pre + length xs) buffer"
  have sz: "unat (m_size q) = length (natural_runs cmp xs)"
    using length_pending [of q] by (simp add: q(3))
  have q0: "queue ?st0 = q"
    by (simp add: initial_state_def Let_def)
  from merge_calls_within [where st = ?st0 and cmp = cmp] q(2)
  have m: "list_all (call_within (2 ^ ceillog2 (max (length xs div 2 + 1) 256))
      (length (natural_runs cmp xs))) (merge_calls cmp ?st0)"
    by (simp add: q0 q(4) sz)
  have n2': "\<not> (of_nat (length xs) :: size_t) < 2"
    using n2 n64 by (simp add: of_nat_less_2)
  show ?thesis
    using build_calls_within [where h = h and b = b and pre = pre and xs = xs and post = post
        and cmp = cmp, OF h n2 n64] m n2'
    by (simp add: sort_calls_def distance_def q(1))
qed

lemma length_concat_replicate: "length (concat (replicate k [a, b])) = 2 * k"
  by (induction k) simp_all

lemma natural_runs_zigzag:
  "natural_runs (<) (concat (replicate k [Suc 0, 0]) @ [0]) = replicate k [Suc 0, 0] @ [[0]]"
proof (induction k)
  case 0
  show ?case
    by simp
next
  case (Suc k)
  have s: "split_run (\<lambda>a b. b < a) 0 (concat (replicate k [Suc 0, 0]) @ [0 :: nat])
      = ([0], concat (replicate k [Suc 0, 0]) @ [0])"
    by (cases k) simp_all
  show ?case
    using Suc s by simp
qed

lemma swo_nat_less: "strict_weak_order ((<) :: nat \<Rightarrow> nat \<Rightarrow> bool)"
  by (auto simp: strict_weak_order_def)

lemma swo_by_key: "strict_weak_order by_key"
  by (auto simp: strict_weak_order_def by_key_def)

lemma caller_heap_app: "caller_heap xs Caller = [] @ xs @ []"
  by (simp add: caller_heap_def)

lemma sorted_array_result:
  assumes "length xs < 2 ^ 64"
  shows "\<exists>ys. sorted_array uninit cmp xs = Some ys \<and> sort_result cmp xs ys"
  using natural_merge_sort_correct [where h = "caller_heap xs" and pre = "[]" and xs = xs
      and post = "[]" and uninit = uninit and cmp = cmp, OF caller_heap_app assms]
  by (auto simp: sorted_array_def)

lemma parallel_sorted_array_result:
  assumes "length xs < 2 ^ 64"
  shows "\<exists>ys. parallel_sorted_array cores uninit cmp xs = Some ys \<and> sort_result cmp xs ys"
  using parallel_natural_merge_sort_correct [where h = "caller_heap xs" and pre = "[]"
      and xs = xs and post = "[]" and uninit = uninit and cmp = cmp and cores = cores,
      OF caller_heap_app assms]
  by (auto simp: parallel_sorted_array_def)

lemma small_length: "length (xs :: 'a list) < 2 ^ 64" if "length xs < 100"
  using that by simp

lemma entry_points:
  assumes hC: "h Caller = pre @ xs @ post" and n64: "length xs < 2 ^ 64"
  shows "\<exists>h1 h2 ys1 ys2.
      natural_merge_sort uninit cmp h (Caller, length pre) (Caller, length pre + length xs)
        = Some h1
    \<and> parallel_natural_merge_sort cores uninit cmp h (Caller, length pre)
        (Caller, length pre + length xs) = Some h2
    \<and> h1 Caller = pre @ ys1 @ post \<and> h2 Caller = pre @ ys2 @ post
    \<and> range_of h1 (Caller, length pre) (Caller, length pre + length xs) = ys1
    \<and> range_of h2 (Caller, length pre) (Caller, length pre + length xs) = ys2
    \<and> sort_result cmp xs ys1 \<and> sort_result cmp xs ys2"
proof -
  from natural_merge_sort_correct [where h = h and pre = pre and xs = xs and post = post
      and uninit = uninit and cmp = cmp, OF hC n64]
  obtain h1 ys1 where 1: "natural_merge_sort uninit cmp h (Caller, length pre)
      (Caller, length pre + length xs) = Some h1" "h1 Caller = pre @ ys1 @ post"
      "sort_result cmp xs ys1"
    by blast
  from parallel_natural_merge_sort_correct [where h = h and pre = pre and xs = xs
      and post = post and uninit = uninit and cmp = cmp and cores = cores, OF hC n64]
  obtain h2 ys2 where 2: "parallel_natural_merge_sort cores uninit cmp h (Caller, length pre)
      (Caller, length pre + length xs) = Some h2" "h2 Caller = pre @ ys2 @ post"
      "sort_result cmp xs ys2"
    by blast
  have "range_of h1 (Caller, length pre) (Caller, length pre + length xs) = ys1"
    using range_of_caller [where h = h1 and pre = pre and ys = ys1 and post = post
        and n = "length xs", OF 1(2) sort_result_length [OF 1(3)]] .
  moreover have "range_of h2 (Caller, length pre) (Caller, length pre + length xs) = ys2"
    using range_of_caller [where h = h2 and pre = pre and ys = ys2 and post = post
        and n = "length xs", OF 2(2) sort_result_length [OF 2(3)]] .
  ultimately show ?thesis
    using 1 2 by blast
qed

text \<open>
  Claim C1. For every input sequence and every comparator that is a strict weak order, the
  range of the caller is non-decreasing under the comparator after \<open>natural_merge_sort\<close>
  and after \<open>parallel_natural_merge_sort\<close>: no element is put before an earlier one that
  the comparator does not place after it. Both calls return, and the range that is
  non-decreasing is the whole sequence of the caller: it lies in the array of the caller
  between the cells before and after it, which are unchanged, has the length of the input
  and holds the elements of the input. The length of the range is a \<open>size_t\<close>, hence below
  \<open>2 ^ 64\<close>; \<open>cores\<close> is the hardware concurrency and \<open>uninit\<close> the contents of the fresh
  buffer, both arbitrary.
\<close>

theorem sort_output_non_decreasing:
  assumes "strict_weak_order cmp" and "h Caller = pre @ xs @ post" and "length xs < 2 ^ 64"
  shows "\<exists>h1 h2.
      natural_merge_sort uninit cmp h (Caller, length pre) (Caller, length pre + length xs)
        = Some h1
    \<and> parallel_natural_merge_sort cores uninit cmp h (Caller, length pre)
        (Caller, length pre + length xs) = Some h2
    \<and> h1 Caller
        = pre @ range_of h1 (Caller, length pre) (Caller, length pre + length xs) @ post
    \<and> h2 Caller
        = pre @ range_of h2 (Caller, length pre) (Caller, length pre + length xs) @ post
    \<and> length (range_of h1 (Caller, length pre) (Caller, length pre + length xs)) = length xs
    \<and> length (range_of h2 (Caller, length pre) (Caller, length pre + length xs)) = length xs
    \<and> mset (range_of h1 (Caller, length pre) (Caller, length pre + length xs)) = mset xs
    \<and> mset (range_of h2 (Caller, length pre) (Caller, length pre + length xs)) = mset xs
    \<and> sorted_wrt (\<lambda>a b. \<not> cmp b a)
        (range_of h1 (Caller, length pre) (Caller, length pre + length xs))
    \<and> sorted_wrt (\<lambda>a b. \<not> cmp b a)
        (range_of h2 (Caller, length pre) (Caller, length pre + length xs))"
proof -
  let ?F = "(Caller, length pre)" and ?L = "(Caller, length pre + length xs)"
  from entry_points [where h = h and pre = pre and xs = xs and post = post
      and uninit = uninit and cmp = cmp and cores = cores, OF assms(2,3)]
  obtain h1 h2 ys1 ys2 where e:
    "natural_merge_sort uninit cmp h ?F ?L = Some h1"
    "parallel_natural_merge_sort cores uninit cmp h ?F ?L = Some h2"
    "h1 Caller = pre @ ys1 @ post" "h2 Caller = pre @ ys2 @ post"
    "range_of h1 ?F ?L = ys1" "range_of h2 ?F ?L = ys2"
    "sort_result cmp xs ys1" "sort_result cmp xs ys2"
    by blast
  have srt: "sorted_wrt (\<lambda>a b. \<not> cmp b a) (stable_sorted cmp xs)"
    using non_decreasing_stable_sorted [OF assms(1), of xs] by (simp add: non_decreasing_def)
  have l: "length ys1 = length xs" "length ys2 = length xs"
    using e(7,8) by (simp_all add: sort_result_length)
  have m: "mset ys1 = mset xs" "mset ys2 = mset xs"
    using e(7,8) by (simp_all add: sort_result_def)
  have s: "sorted_wrt (\<lambda>a b. \<not> cmp b a) ys1" "sorted_wrt (\<lambda>a b. \<not> cmp b a) ys2"
    using e(7,8) assms(1) srt by (simp_all add: sort_result_def)
  show ?thesis
    using e(1,2,3,4) l m s
    by (intro exI [of _ h1] exI [of _ h2]) (simp add: e(5,6))
qed

theorem sort_output_non_decreasing_witness:
  "strict_weak_order ((<) :: nat \<Rightarrow> nat \<Rightarrow> bool)
   \<and> caller_heap [3, 1, 2 :: nat] Caller = [] @ [3, 1, 2] @ []
   \<and> length [3, 1, 2 :: nat] < 2 ^ 64
   \<and> (\<exists>h1 h2.
      natural_merge_sort zero_fill (<) (caller_heap [3, 1, 2]) (Caller, 0) (Caller, 3) = Some h1
    \<and> parallel_natural_merge_sort 4 zero_fill (<) (caller_heap [3, 1, 2]) (Caller, 0) (Caller, 3)
        = Some h2
    \<and> h1 Caller = range_of h1 (Caller, 0) (Caller, 3)
    \<and> h2 Caller = range_of h2 (Caller, 0) (Caller, 3)
    \<and> length (range_of h1 (Caller, 0) (Caller, 3)) = 3
    \<and> length (range_of h2 (Caller, 0) (Caller, 3)) = 3
    \<and> mset (range_of h1 (Caller, 0) (Caller, 3)) = mset [3, 1, 2]
    \<and> mset (range_of h2 (Caller, 0) (Caller, 3)) = mset [3, 1, 2]
    \<and> sorted_wrt (\<lambda>a b. \<not> b < a) (range_of h1 (Caller, 0) (Caller, 3))
    \<and> sorted_wrt (\<lambda>a b. \<not> b < a) (range_of h2 (Caller, 0) (Caller, 3)))"
  using sort_output_non_decreasing [where cmp = "(<) :: nat \<Rightarrow> nat \<Rightarrow> bool"
      and h = "caller_heap [3, 1, 2]" and pre = "[]" and xs = "[3, 1, 2]" and post = "[]"
      and uninit = zero_fill and cores = 4, OF swo_nat_less caller_heap_app]
    swo_nat_less
  by (simp add: caller_heap_def numeral_3_eq_3)

text \<open>
  Claim C2. For every input sequence and every comparator, strict weak order or not, the
  elements of the range of the caller after \<open>natural_merge_sort\<close> and after
  \<open>parallel_natural_merge_sort\<close> are those before the call, with their multiplicities:
  nothing is dropped, duplicated or made up. The range and the array around it keep their
  lengths, and the cells before and after the range keep their contents.
\<close>

theorem sort_output_permutation:
  assumes "h Caller = pre @ xs @ post" and "length xs < 2 ^ 64"
  shows "\<exists>h1 h2.
      natural_merge_sort uninit cmp h (Caller, length pre) (Caller, length pre + length xs)
        = Some h1
    \<and> parallel_natural_merge_sort cores uninit cmp h (Caller, length pre)
        (Caller, length pre + length xs) = Some h2
    \<and> mset (range_of h1 (Caller, length pre) (Caller, length pre + length xs)) = mset xs
    \<and> mset (range_of h2 (Caller, length pre) (Caller, length pre + length xs)) = mset xs
    \<and> length (range_of h1 (Caller, length pre) (Caller, length pre + length xs)) = length xs
    \<and> length (range_of h2 (Caller, length pre) (Caller, length pre + length xs)) = length xs
    \<and> length (h1 Caller) = length (h Caller) \<and> length (h2 Caller) = length (h Caller)
    \<and> take (length pre) (h1 Caller) = pre \<and> drop (length pre + length xs) (h1 Caller) = post
    \<and> take (length pre) (h2 Caller) = pre \<and> drop (length pre + length xs) (h2 Caller) = post"
proof -
  from entry_points [where h = h and pre = pre and xs = xs and post = post
      and uninit = uninit and cmp = cmp and cores = cores, OF assms]
  obtain h1 h2 ys1 ys2 where e:
    "natural_merge_sort uninit cmp h (Caller, length pre) (Caller, length pre + length xs)
        = Some h1"
    "parallel_natural_merge_sort cores uninit cmp h (Caller, length pre)
        (Caller, length pre + length xs) = Some h2"
    "h1 Caller = pre @ ys1 @ post" "h2 Caller = pre @ ys2 @ post"
    "range_of h1 (Caller, length pre) (Caller, length pre + length xs) = ys1"
    "range_of h2 (Caller, length pre) (Caller, length pre + length xs) = ys2"
    "sort_result cmp xs ys1" "sort_result cmp xs ys2"
    by blast
  have m: "mset ys1 = mset xs" "mset ys2 = mset xs"
    using e(7,8) by (simp_all add: sort_result_def)
  have l: "length ys1 = length xs" "length ys2 = length xs"
    using e(7,8) by (simp_all add: sort_result_length)
  show ?thesis
    using e(1,2) m l assms(1)
    by (intro exI [of _ h1] exI [of _ h2]) (simp add: e(3,4,5,6))
qed

theorem sort_output_permutation_witness:
  "caller_heap [3, 1, 2 :: nat] Caller = [] @ [3, 1, 2] @ []
   \<and> length [3, 1, 2 :: nat] < 2 ^ 64
   \<and> (\<exists>h1 h2.
      natural_merge_sort zero_fill predecessor (caller_heap [3, 1, 2]) (Caller, 0) (Caller, 3)
        = Some h1
    \<and> parallel_natural_merge_sort 4 zero_fill predecessor (caller_heap [3, 1, 2]) (Caller, 0)
        (Caller, 3) = Some h2
    \<and> mset (range_of h1 (Caller, 0) (Caller, 3)) = mset [3, 1, 2]
    \<and> mset (range_of h2 (Caller, 0) (Caller, 3)) = mset [3, 1, 2]
    \<and> length (h1 Caller) = 3 \<and> length (h2 Caller) = 3)"
  using sort_output_permutation [where cmp = predecessor
      and h = "caller_heap [3, 1, 2]" and pre = "[]" and xs = "[3, 1, 2]" and post = "[]"
      and uninit = zero_fill and cores = 4, OF caller_heap_app]
  by (simp add: caller_heap_def numeral_3_eq_3) blast

text \<open>
  Claim C3, as stated, for every comparator: refuted. Under the comparator \<open>predecessor\<close>
  the input \<open>[3, 2, 1]\<close> is one descending run, which the scanner reverses. The comparator
  is false in both directions on 3 and 1, and 3 is before 1 in the input and after it in
  the output.
\<close>

theorem stability_counterexample:
  "sorted_array zero_fill predecessor [3, 2, 1] = Some [1, 2, 3]
   \<and> \<not> predecessor 3 1 \<and> \<not> predecessor 1 3
   \<and> filter (equiv_under predecessor 3) [3, 2, 1] = [3, 1]
   \<and> filter (equiv_under predecessor 3) [1, 2, 3] = [1, 3]"
proof -
  have "sorted_array zero_fill predecessor [3, 2, 1] = Some [1, 2, 3]"
    by code_simp
  then show ?thesis
    by (simp add: equiv_under_def predecessor_def)
qed

text \<open>
  Claim C3, amended. For every input sequence and every comparator that is a strict weak
  order, both entry points are stable: for each element \<open>a\<close>, the elements on which the
  comparator is false in both directions against \<open>a\<close> are in the output in the order they
  have in the input. Sorting \<open>[(3, a), (1, b), (3, c), (2, d)]\<close> by the number alone gives
  \<open>[(1, b), (2, d), (3, a), (3, c)]\<close>, with \<open>a\<close> before \<open>c\<close>.
\<close>

theorem sort_output_stable:
  assumes "strict_weak_order cmp" and "h Caller = pre @ xs @ post" and "length xs < 2 ^ 64"
  shows "(\<exists>h1 h2.
      natural_merge_sort uninit cmp h (Caller, length pre) (Caller, length pre + length xs)
        = Some h1
    \<and> parallel_natural_merge_sort cores uninit cmp h (Caller, length pre)
        (Caller, length pre + length xs) = Some h2
    \<and> (\<forall>a. filter (equiv_under cmp a)
              (range_of h1 (Caller, length pre) (Caller, length pre + length xs))
            = filter (equiv_under cmp a) xs)
    \<and> (\<forall>a. filter (equiv_under cmp a)
              (range_of h2 (Caller, length pre) (Caller, length pre + length xs))
            = filter (equiv_under cmp a) xs))
    \<and> sorted_array pair_fill by_key [(3, ''a''), (1, ''b''), (3, ''c''), (2, ''d'')]
        = Some [(1, ''b''), (2, ''d''), (3, ''a''), (3, ''c'')]
    \<and> parallel_sorted_array cores pair_fill by_key [(3, ''a''), (1, ''b''), (3, ''c''), (2, ''d'')]
        = Some [(1, ''b''), (2, ''d''), (3, ''a''), (3, ''c'')]"
proof -
  let ?ex = "[(3 :: nat, ''a''), (1, ''b''), (3, ''c''), (2, ''d'')]"
  have s: "stable_sorted by_key ?ex = [(1, ''b''), (2, ''d''), (3, ''a''), (3, ''c'')]"
    by (simp add: by_key_def)
  have l: "length ?ex < 2 ^ 64"
    by simp
  have 1: "sorted_array pair_fill by_key ?ex = Some [(1, ''b''), (2, ''d''), (3, ''a''), (3, ''c'')]"
    using sorted_array_result [OF l, of pair_fill by_key] swo_by_key s
    by (auto simp: sort_result_def)
  have 2: "parallel_sorted_array cores pair_fill by_key ?ex
      = Some [(1, ''b''), (2, ''d''), (3, ''a''), (3, ''c'')]"
    using parallel_sorted_array_result [OF l, of cores pair_fill by_key] swo_by_key s
    by (auto simp: sort_result_def)
  have "\<forall>a. filter (equiv_under cmp a) (stable_sorted cmp xs) = filter (equiv_under cmp a) xs"
    using filter_stable_sorted [OF assms(1)] by blast
  with entry_points [where h = h and pre = pre and xs = xs and post = post
      and uninit = uninit and cmp = cmp and cores = cores, OF assms(2,3)] assms(1)
  have "\<exists>h1 h2.
      natural_merge_sort uninit cmp h (Caller, length pre) (Caller, length pre + length xs)
        = Some h1
    \<and> parallel_natural_merge_sort cores uninit cmp h (Caller, length pre)
        (Caller, length pre + length xs) = Some h2
    \<and> (\<forall>a. filter (equiv_under cmp a)
              (range_of h1 (Caller, length pre) (Caller, length pre + length xs))
            = filter (equiv_under cmp a) xs)
    \<and> (\<forall>a. filter (equiv_under cmp a)
              (range_of h2 (Caller, length pre) (Caller, length pre + length xs))
            = filter (equiv_under cmp a) xs)"
    by (auto simp: sort_result_def)
  with 1 2 show ?thesis
    by blast
qed

theorem sort_output_stable_witness:
  "strict_weak_order by_key
   \<and> caller_heap [(3, ''a''), (1, ''b''), (3, ''c'')] Caller
       = [] @ [(3, ''a''), (1, ''b''), (3, ''c'')] @ []
   \<and> length [(3 :: nat, ''a''), (1, ''b''), (3, ''c'')] < 2 ^ 64
   \<and> (\<exists>h1 h2.
      natural_merge_sort pair_fill by_key (caller_heap [(3, ''a''), (1, ''b''), (3, ''c'')])
        (Caller, 0) (Caller, 3) = Some h1
    \<and> parallel_natural_merge_sort 4 pair_fill by_key
        (caller_heap [(3, ''a''), (1, ''b''), (3, ''c'')]) (Caller, 0) (Caller, 3) = Some h2
    \<and> filter (equiv_under by_key (3, ''z'')) (range_of h1 (Caller, 0) (Caller, 3))
        = [(3, ''a''), (3, ''c'')]
    \<and> filter (equiv_under by_key (3, ''z'')) (range_of h2 (Caller, 0) (Caller, 3))
        = [(3, ''a''), (3, ''c'')])"
proof -
  have e: "filter (equiv_under by_key (3, ''z'')) [(3, ''a''), (1, ''b''), (3, ''c'')]
      = [(3, ''a''), (3, ''c'')]"
    by (simp add: equiv_under_def by_key_def)
  from sort_output_stable [where cmp = by_key
      and h = "caller_heap [(3, ''a''), (1, ''b''), (3, ''c'')]" and pre = "[]"
      and xs = "[(3, ''a''), (1, ''b''), (3, ''c'')]" and post = "[]"
      and uninit = pair_fill and cores = 4, OF swo_by_key caller_heap_app]
  have "\<exists>h1 h2.
      natural_merge_sort pair_fill by_key (caller_heap [(3, ''a''), (1, ''b''), (3, ''c'')])
        (Caller, 0) (Caller, 3) = Some h1
    \<and> parallel_natural_merge_sort 4 pair_fill by_key
        (caller_heap [(3, ''a''), (1, ''b''), (3, ''c'')]) (Caller, 0) (Caller, 3) = Some h2
    \<and> (\<forall>a. filter (equiv_under by_key a) (range_of h1 (Caller, 0) (Caller, 3))
            = filter (equiv_under by_key a) [(3, ''a''), (1, ''b''), (3, ''c'')])
    \<and> (\<forall>a. filter (equiv_under by_key a) (range_of h2 (Caller, 0) (Caller, 3))
            = filter (equiv_under by_key a) [(3, ''a''), (1, ''b''), (3, ''c'')])"
    by (simp add: numeral_3_eq_3)
  then obtain h1 h2 where
    "natural_merge_sort pair_fill by_key (caller_heap [(3, ''a''), (1, ''b''), (3, ''c'')])
        (Caller, 0) (Caller, 3) = Some h1"
    "parallel_natural_merge_sort 4 pair_fill by_key
        (caller_heap [(3, ''a''), (1, ''b''), (3, ''c'')]) (Caller, 0) (Caller, 3) = Some h2"
    "filter (equiv_under by_key (3, ''z'')) (range_of h1 (Caller, 0) (Caller, 3))
            = filter (equiv_under by_key (3, ''z'')) [(3, ''a''), (1, ''b''), (3, ''c'')]"
    "filter (equiv_under by_key (3, ''z'')) (range_of h2 (Caller, 0) (Caller, 3))
            = filter (equiv_under by_key (3, ''z'')) [(3, ''a''), (1, ''b''), (3, ''c'')]"
    by blast
  with e swo_by_key show ?thesis
    by (simp add: caller_heap_def)
qed

text \<open>
  Claim C4. For every input sequence and every comparator that is a strict weak order,
  \<open>natural_merge_sort\<close> and \<open>parallel_natural_merge_sort\<close> leave the same sequence in the
  range of the caller, element by element, whatever the number of cores.
\<close>

theorem sequential_parallel_same_output:
  assumes "strict_weak_order cmp" and "h Caller = pre @ xs @ post" and "length xs < 2 ^ 64"
  shows "\<exists>h1 h2.
      natural_merge_sort uninit cmp h (Caller, length pre) (Caller, length pre + length xs)
        = Some h1
    \<and> parallel_natural_merge_sort cores uninit cmp h (Caller, length pre)
        (Caller, length pre + length xs) = Some h2
    \<and> range_of h1 (Caller, length pre) (Caller, length pre + length xs)
        = range_of h2 (Caller, length pre) (Caller, length pre + length xs)
    \<and> h1 Caller = h2 Caller"
  using entry_points [where h = h and pre = pre and xs = xs and post = post
      and uninit = uninit and cmp = cmp and cores = cores, OF assms(2,3)] assms(1)
  by (auto simp: sort_result_def)

theorem sequential_parallel_same_output_witness:
  "strict_weak_order ((<) :: nat \<Rightarrow> nat \<Rightarrow> bool)
   \<and> caller_heap [3, 1, 2 :: nat] Caller = [] @ [3, 1, 2] @ []
   \<and> length [3, 1, 2 :: nat] < 2 ^ 64
   \<and> (\<exists>h1 h2.
      natural_merge_sort zero_fill (<) (caller_heap [3, 1, 2]) (Caller, 0) (Caller, 3) = Some h1
    \<and> parallel_natural_merge_sort 4 zero_fill (<) (caller_heap [3, 1, 2]) (Caller, 0) (Caller, 3)
        = Some h2
    \<and> range_of h1 (Caller, 0) (Caller, 3) = range_of h2 (Caller, 0) (Caller, 3))"
  using sequential_parallel_same_output [where cmp = "(<) :: nat \<Rightarrow> nat \<Rightarrow> bool"
      and h = "caller_heap [3, 1, 2]" and pre = "[]" and xs = "[3, 1, 2]" and post = "[]"
      and uninit = zero_fill and cores = 4, OF swo_nat_less caller_heap_app]
    swo_nat_less
  by (simp add: caller_heap_def numeral_3_eq_3) blast

lemma length_le_concat: "r \<in> set rs \<Longrightarrow> length r \<le> length (concat rs)"
  by (induction rs) auto

lemma map_unat_run_len:
  assumes "length (concat rs) < 2 ^ 64"
  shows "map unat (map run_len rs) = map length rs"
proof -
  have "unat (run_len r) = length r" if "r \<in> set rs" for r
    using length_le_concat [OF that] assms by (simp add: unat_of_nat)
  then show ?thesis
    by simp
qed

text \<open>
  Claim C5. For every range of at least two elements and every comparator,
  \<open>natural_merge_sort_impl\<close> has the number of merge passes, the ceiling of the binary
  logarithm of the number of runs, before the merge loop starts; the state in which the loop
  starts holds a copy of the input in the buffer, and the buffer as the source, when that
  number is odd, and the untouched memory, with the input range as the source, when it is
  even; and the loop ends with one length in the queue, the input range as the source, and
  in the input range a rearrangement of the input, which is the stably sorted input when
  the comparator is a strict weak order.
\<close>

theorem merge_result_in_input_range:
  assumes "h bF = preF @ xs @ postF" and "h bB = preB @ B @ postB" and "length B = length xs"
    and "bF \<noteq> bB" and "length xs < 2 ^ 64" and "2 \<le> length xs"
  shows "\<exists>h1 q st0 st.
      build_run_size_queue cmp h (bF, length preF) (bF, length preF + length xs) = Some (h1, q)
    \<and> unat (get_pass_amount (queue_size q)) = ceillog2 (length (natural_runs cmp xs))
    \<and> st0 = initial_state h1 q (bF, length preF) (bF, length preF + length xs) (bB, length preB)
    \<and> st = merge_loop cmp st0
    \<and> (odd (unat (get_pass_amount (queue_size q))) \<longrightarrow>
          heap st0 = std_copy h1 (bF, length preF) (bF, length preF + length xs) (bB, length preB)
          \<and> range_of (heap st0) (bB, length preB) (bB, length preB + length xs)
              = range_of h1 (bF, length preF) (bF, length preF + length xs)
          \<and> source st0 = (bB, length preB) \<and> target st0 = (bF, length preF))
    \<and> (even (unat (get_pass_amount (queue_size q))) \<longrightarrow>
          heap st0 = h1 \<and> h1 bB = h bB
          \<and> source st0 = (bF, length preF) \<and> target st0 = (bB, length preB))
    \<and> natural_merge_sort_impl cmp h (bF, length preF) (bF, length preF + length xs)
          (bB, length preB) = Some (heap st)
    \<and> queue_size (queue st) = 1
    \<and> source st = (bF, length preF)
    \<and> mset (range_of (heap st) (bF, length preF) (bF, length preF + length xs)) = mset xs
    \<and> (strict_weak_order cmp \<longrightarrow>
          range_of (heap st) (bF, length preF) (bF, length preF + length xs)
            = stable_sorted cmp xs
          \<and> sorted_wrt (\<lambda>a b. \<not> cmp b a)
              (range_of (heap st) (bF, length preF) (bF, length preF + length xs)))"
proof -
  note hF = assms(1) and hB = assms(2) and lB = assms(3) and ne = assms(4)
    and n64 = assms(5) and n2 = assms(6)
  let ?first = "(bF, length preF)" and ?last = "(bF, length preF + length xs)"
    and ?buffer = "(bB, length preB)"
  let ?cs = "map (ascending_form cmp) (natural_runs cmp xs)"
  let ?h1 = "h (bF := preF @ concat ?cs @ postF)"
  let ?pre = "\<lambda>b. if b = bF then preF else preB" and ?post = "\<lambda>b. if b = bF then postF else postB"
  from impl_initial_state [OF hF hB lB ne n64 n2, of cmp] obtain q where
    b: "build_run_size_queue cmp h ?first ?last = Some (?h1, q)"
    and pq: "pending q = map run_len (natural_runs cmp xs)"
    and inv: "merge_inv cmp ?first ?buffer ?pre ?post (initial_state ?h1 q ?first ?last ?buffer)
        [] ?cs"
    by blast
  define st0 where "st0 = initial_state ?h1 q ?first ?last ?buffer"
  define st where "st = merge_loop cmp st0"
  have sz: "unat (queue_size q) = length (natural_runs cmp xs)"
    using length_pending [of q] pq by (simp add: queue_size_def)
  have "natural_runs cmp xs \<noteq> []"
    using n2 by (auto simp: natural_runs_Nil_iff)
  then have "1 \<le> queue_size q"
    using sz by (cases "natural_runs cmp xs") (simp_all add: word_le_nat_alt)
  from get_pass_amount_ceillog2 [OF this] sz
  have gp: "unat (get_pass_amount (queue_size q)) = ceillog2 (length (natural_runs cmp xs))"
    by simp
  have lc: "length (concat ?cs) = length xs"
    using concat_natural_runs [of cmp xs]
    by (metis mset_concat_map_ascending_form size_mset)
  have h1F: "?h1 bF = preF @ concat ?cs @ postF"
    by simp
  have h1B: "?h1 bB = preB @ B @ postB"
    using ne hB by simp
  have rg: "range_of ?h1 ?first ?last = concat ?cs"
    using range_of_app [where h = ?h1 and b = bF and pre = preF and X = "concat ?cs"
        and post = postF, OF h1F] by (simp add: lc)
  have cp: "std_copy ?h1 ?first ?last ?buffer = ?h1 (bB := preB @ concat ?cs @ postB)"
    using write_range_app [where h = ?h1 and b = bB and pre = preB and X = B and post = postB
        and vs = "concat ?cs", OF h1B] lB lc
    by (simp add: std_copy_def rg)
  have cpB: "(std_copy ?h1 ?first ?last ?buffer) bB = preB @ concat ?cs @ postB"
    by (simp add: cp)
  have rgB: "range_of (std_copy ?h1 ?first ?last ?buffer) ?buffer (bB, length preB + length xs)
      = concat ?cs"
    using range_of_app [where h = "std_copy ?h1 ?first ?last ?buffer" and b = bB and pre = preB
        and X = "concat ?cs" and post = postB, OF cpB] by (simp add: lc)
  have odd: "odd (unat (get_pass_amount (queue_size q))) \<longrightarrow>
          heap st0 = std_copy ?h1 ?first ?last ?buffer
          \<and> range_of (heap st0) ?buffer (bB, length preB + length xs) = range_of ?h1 ?first ?last
          \<and> source st0 = ?buffer \<and> target st0 = ?first"
    using rgB rg by (simp add: st0_def initial_state_def word_and_one_odd)
  have even: "even (unat (get_pass_amount (queue_size q))) \<longrightarrow>
          heap st0 = ?h1 \<and> ?h1 bB = h bB \<and> source st0 = ?first \<and> target st0 = ?buffer"
    using ne by (simp add: st0_def initial_state_def word_and_one_odd)
  have clo: "\<forall>cs cs'. merged_once cmp cs cs' \<longrightarrow> runs_result cmp xs cs \<longrightarrow> runs_result cmp xs cs'"
    using runs_result_merged by blast
  have q0: "runs_result cmp xs ([] @ ?cs)"
    using runs_result_scan [of cmp xs] by simp
  note fin = merge_loop_correct [OF clo inv q0, folded st0_def st_def]
  from fin(2) obtain c where c: "heap st bF = preF @ c @ postF" "runs_result cmp xs [c]"
    by auto
  have sr: "sort_result cmp xs c"
    using c(2) by (rule runs_result_single)
  have rgc: "range_of (heap st) ?first ?last = c"
    using range_of_app [where h = "heap st" and b = bF and pre = preF and X = c
        and post = postF, OF c(1)] sort_result_length [OF sr] by simp
  have cm: "mset c = mset xs"
    using sr by (simp add: sort_result_def)
  have res: "natural_merge_sort_impl cmp h ?first ?last ?buffer = Some (heap st)"
    using n2 n64
    by (simp add: natural_merge_sort_impl_def distance_def of_nat_less_2 b st_def st0_def)
  have r1: "mset (range_of (heap st) ?first ?last) = mset xs"
    using rgc cm by simp
  have r2: "strict_weak_order cmp \<longrightarrow>
      range_of (heap st) ?first ?last = stable_sorted cmp xs
      \<and> sorted_wrt (\<lambda>a b. \<not> cmp b a) (range_of (heap st) ?first ?last)"
  proof
    assume swo: "strict_weak_order cmp"
    have cs: "c = stable_sorted cmp xs"
      using sr swo by (simp add: sort_result_def)
    have "sorted_wrt (\<lambda>a b. \<not> cmp b a) (stable_sorted cmp xs)"
      using non_decreasing_stable_sorted [OF swo, of xs] by (simp add: non_decreasing_def)
    then show "range_of (heap st) ?first ?last = stable_sorted cmp xs
      \<and> sorted_wrt (\<lambda>a b. \<not> cmp b a) (range_of (heap st) ?first ?last)"
      using rgc cs by simp
  qed
  show ?thesis
    by (intro exI [of _ ?h1] exI [of _ q] exI [of _ st0] exI [of _ st] conjI)
       (fact b gp st0_def st_def odd even res fin(1) fin(3) r1 r2)+
qed

theorem merge_result_in_input_range_witness:
  "strict_weak_order ((<) :: nat \<Rightarrow> nat \<Rightarrow> bool)
   \<and> (\<exists>h1 q st0 st.
      build_run_size_queue (<) ((caller_heap [3, 1, 2 :: nat]) (Scratch := [0, 0, 0]))
        (Caller, 0) (Caller, 3) = Some (h1, q)
    \<and> st0 = initial_state h1 q (Caller, 0) (Caller, 3) (Scratch, 0)
    \<and> st = merge_loop (<) st0
    \<and> natural_merge_sort_impl (<) ((caller_heap [3, 1, 2]) (Scratch := [0, 0, 0])) (Caller, 0)
          (Caller, 3) (Scratch, 0) = Some (heap st)
    \<and> queue_size (queue st) = 1
    \<and> source st = (Caller, 0)
    \<and> range_of (heap st) (Caller, 0) (Caller, 3) = [1, 2, 3])"
proof -
  let ?h = "(caller_heap [3, 1, 2 :: nat]) (Scratch := [0, 0, 0])"
  have hF: "?h Caller = [] @ [3, 1, 2] @ []" and hB: "?h Scratch = [] @ [0, 0, 0] @ []"
    by (simp_all add: caller_heap_def)
  have s: "stable_sorted (<) [3, 1, 2 :: nat] = [1, 2, 3]"
    by simp
  from merge_result_in_input_range [where cmp = "(<) :: nat \<Rightarrow> nat \<Rightarrow> bool" and h = ?h
      and bF = Caller and preF = "[]" and xs = "[3, 1, 2]" and postF = "[]" and bB = Scratch
      and preB = "[]" and B = "[0, 0, 0]" and postB = "[]", OF hF hB]
  show ?thesis
    using swo_nat_less by (simp add: numeral_3_eq_3 s) blast
qed

text \<open>
  Claim C6. For every range of at least two elements and every comparator,
  \<open>build_run_size_queue\<close> returns a queue from which \<open>dequeue\<close> hands out the lengths of the
  runs of the range from left to right. The runs are consecutive pieces that make up the
  range; each is strictly descending with two elements at least, or ascending; none can
  take the first element of the next; and their lengths add up to the length of the range.
\<close>

theorem run_queue_lists_runs:
  assumes "h b = pre @ xs @ post" and "2 \<le> length xs" and "length xs < 2 ^ 64"
  shows "\<exists>h' q.
      build_run_size_queue cmp h (b, length pre) (b, length pre + length xs) = Some (h', q)
    \<and> map unat (dequeue_n (unat (queue_size q)) q) = map length (natural_runs cmp xs)
    \<and> map unat (pending q) = map length (natural_runs cmp xs)
    \<and> sum_list (map unat (pending q)) = length xs
    \<and> concat (natural_runs cmp xs) = xs
    \<and> (\<forall>r\<in>set (natural_runs cmp xs). descending_run cmp r \<or> ascending_run cmp r)
    \<and> maximal_runs cmp (natural_runs cmp xs)
    \<and> h' b = pre @ concat (map (ascending_form cmp) (natural_runs cmp xs)) @ post"
proof -
  let ?runs = "natural_runs cmp xs"
  from build_run_size_queue_correct [where h = h and b = b and pre = pre and xs = xs
      and post = post and cmp = cmp, OF assms]
  obtain q where b: "build_run_size_queue cmp h (b, length pre) (b, length pre + length xs)
      = Some (h (b := pre @ concat (map (ascending_form cmp) ?runs) @ post), q)"
    and qi: "queue_inv q" and pq: "pending q = map run_len ?runs"
    by blast
  have cr: "concat ?runs = xs"
    by (rule concat_natural_runs)
  have mu: "map unat (pending q) = map length ?runs"
    using map_unat_run_len [of ?runs] assms(3) by (simp add: pq cr)
  have dq: "dequeue_n (unat (queue_size q)) q = pending q"
    using dequeue_n_pending [OF qi] by (simp add: queue_size_def)
  have sm: "sum_list (map unat (pending q)) = length xs"
    using cr by (simp only: mu) (metis length_concat)
  have sh: "\<forall>r\<in>set ?runs. descending_run cmp r \<or> ascending_run cmp r"
    using natural_runs_shape [of _ cmp xs] by blast
  show ?thesis
    using b mu dq sm cr sh natural_runs_maximal [of cmp xs] by simp
qed

theorem run_queue_lists_runs_witness:
  "caller_heap [3, 1, 2 :: nat] Caller = [] @ [3, 1, 2] @ []
   \<and> 2 \<le> length [3, 1, 2 :: nat] \<and> length [3, 1, 2 :: nat] < 2 ^ 64
   \<and> (\<exists>h' q.
      build_run_size_queue (<) (caller_heap [3, 1, 2 :: nat]) (Caller, 0) (Caller, 3)
        = Some (h', q)
    \<and> map unat (dequeue_n (unat (queue_size q)) q) = [2, 1]
    \<and> sum_list (map unat (pending q)) = 3
    \<and> natural_runs (<) [3, 1, 2 :: nat] = [[3, 1], [2]]
    \<and> h' Caller = [1, 3, 2])"
proof -
  have r: "natural_runs (<) [3, 1, 2 :: nat] = [[3, 1], [2]]"
    by simp
  have l: "2 \<le> length [3, 1, 2 :: nat]" "length [3, 1, 2 :: nat] < 2 ^ 64"
    by simp_all
  have n: "length [3, 1, 2 :: nat] = 3" "length ([] :: nat list) = 0"
    "map length [[3, 1], [2 :: nat]] = [2, 1]"
    by simp_all
  note t = run_queue_lists_runs [where cmp = "(<) :: nat \<Rightarrow> nat \<Rightarrow> bool"
      and h = "caller_heap [3, 1, 2]" and b = Caller and pre = "[]" and xs = "[3, 1, 2]"
      and post = "[]", OF caller_heap_app l]
  from t [unfolded n r] l show ?thesis
    by (simp add: r ascending_form_def caller_heap_def)
       (elim exE conjE, intro exI conjI, assumption+)
qed

text \<open>
  Claim C7, as stated: refuted. On \<open>[5, 4, 3, 2, 1, 2, 3, 4]\<close> under the ascending
  comparator the queue hands out 5 and then 3, not 5 and then 4: the descending run takes
  five of the eight elements and three are left for the ascending run.
\<close>

theorem descending_example_counterexample:
  "scanned_lengths (<) [5, 4, 3, 2, 1, 2, 3, 4 :: nat] = Some [5, 3]
   \<and> scanned_lengths (<) [5, 4, 3, 2, 1, 2, 3, 4 :: nat] \<noteq> Some [5, 4]"
proof -
  have "scanned_lengths (<) [5, 4, 3, 2, 1, 2, 3, 4 :: nat] = Some [5, 3]"
    by code_simp
  then show ?thesis
    by simp
qed

text \<open>
  Claim C7, amended. On \<open>[5, 4, 3, 2, 1, 2, 3, 4]\<close> under the ascending comparator the
  scanner finds one descending run of length 5 and then one ascending run of length 3; the
  queue hands out 5 and then 3 and the array holds \<open>[1, 2, 3, 4, 5, 2, 3, 4]\<close>. Under a
  strict weak order, reversing a strictly descending run keeps every group of elements that
  compare false in both directions in its order.
\<close>

theorem descending_example_runs:
  "scanned_lengths (<) [5, 4, 3, 2, 1, 2, 3, 4 :: nat] = Some [5, 3]
   \<and> scanned_array (<) [5, 4, 3, 2, 1, 2, 3, 4 :: nat] = Some [1, 2, 3, 4, 5, 2, 3, 4]
   \<and> natural_runs (<) [5, 4, 3, 2, 1, 2, 3, 4 :: nat] = [[5, 4, 3, 2, 1], [2, 3, 4]]
   \<and> descending_run (<) [5, 4, 3, 2, 1 :: nat] \<and> ascending_run (<) [2, 3, 4 :: nat]
   \<and> (strict_weak_order cmp \<longrightarrow> descending_run cmp r \<longrightarrow>
        ascending_form cmp r = rev r
        \<and> filter (equiv_under cmp a) (rev r) = filter (equiv_under cmp a) r)"
proof -
  have 1: "scanned_lengths (<) [5, 4, 3, 2, 1, 2, 3, 4 :: nat] = Some [5, 3]"
    by code_simp
  have 2: "scanned_array (<) [5, 4, 3, 2, 1, 2, 3, 4 :: nat] = Some [1, 2, 3, 4, 5, 2, 3, 4]"
    by code_simp
  have 3: "natural_runs (<) [5, 4, 3, 2, 1, 2, 3, 4 :: nat] = [[5, 4, 3, 2, 1], [2, 3, 4]]"
    by simp
  have 4: "descending_run (<) [5, 4, 3, 2, 1 :: nat]" "ascending_run (<) [2, 3, 4 :: nat]"
    by (simp_all add: descending_run_def ascending_run_def)
  have 5: "ascending_form cmp r = rev r
      \<and> filter (equiv_under cmp a) (rev r) = filter (equiv_under cmp a) r"
    if swo: "strict_weak_order cmp" and d: "descending_run cmp r"
  proof -
    from d have s: "sorted_wrt (\<lambda>a b. cmp b a) r"
      using successively_descending [OF swo] by (simp add: descending_run_def)
    from d obtain x y zs where r: "r = x # y # zs"
      by (cases r rule: remdups_adj.cases) (auto simp: descending_run_def)
    with d have "cmp y x"
      by (simp add: descending_run_def)
    then have "ascending_form cmp r = rev r"
      by (simp add: r ascending_form_def)
    moreover have "filter (equiv_under cmp a) (rev r) = filter (equiv_under cmp a) r"
      using filter_stable_sorted [OF swo, of a r] stable_sorted_rev [OF s] by simp
    ultimately show ?thesis
      by blast
  qed
  from 1 2 3 4 5 show ?thesis
    by blast
qed

theorem descending_example_runs_witness:
  "strict_weak_order ((<) :: nat \<Rightarrow> nat \<Rightarrow> bool) \<and> descending_run (<) [5, 4, 3, 2, 1 :: nat]
   \<and> ascending_form (<) [5, 4, 3, 2, 1 :: nat] = rev [5, 4, 3, 2, 1]
   \<and> filter (equiv_under (<) 3) (rev [5, 4, 3, 2, 1 :: nat])
       = filter (equiv_under (<) 3) [5, 4, 3, 2, 1]"
proof -
  have d: "descending_run (<) [5, 4, 3, 2, 1 :: nat]"
    by (simp add: descending_run_def)
  from descending_example_runs [where cmp = "(<) :: nat \<Rightarrow> nat \<Rightarrow> bool"
      and r = "[5, 4, 3, 2, 1]" and a = 3] swo_nat_less d
  show ?thesis
    by blast
qed

text \<open>
  Claim C10. For every range of at least two elements that is one strictly descending run,
  \<open>natural_merge_sort\<close> sorts through the reversal in the scanner alone: one length is in
  the queue, the number of passes is 0, the merge loop ends in the state it starts in
  without a round, that state holds the memory as the scanner left it, with no copy in
  the buffer, the buffer still has its fresh contents when \<open>natural_merge_sort_impl\<close>
  returns, and the range of the caller holds the reversed input, which is sorted when the
  comparator is a strict weak order.
\<close>

theorem single_descending_run_no_merge:
  assumes "successively (\<lambda>a b. cmp b a) xs" and "2 \<le> length xs" and "length xs < 2 ^ 64"
    and "h Caller = pre @ xs @ post"
  shows "\<exists>h0 h1 q st0.
      h0 = h (Scratch := new_array uninit (length xs))
    \<and> h1 = h0 (Caller := pre @ rev xs @ post)
    \<and> build_run_size_queue cmp h0 (Caller, length pre) (Caller, length pre + length xs)
        = Some (h1, q)
    \<and> queue_size q = 1 \<and> get_pass_amount (queue_size q) = 0
    \<and> st0 = initial_state h1 q (Caller, length pre) (Caller, length pre + length xs) (Scratch, 0)
    \<and> heap st0 = h1 \<and> source st0 = (Caller, length pre)
    \<and> merge_trace cmp st0 = [st0] \<and> merge_loop cmp st0 = st0
    \<and> natural_merge_sort_impl cmp h0 (Caller, length pre) (Caller, length pre + length xs)
        (Scratch, 0) = Some h1
    \<and> h1 Scratch = new_array uninit (length xs)
    \<and> natural_merge_sort uninit cmp h (Caller, length pre) (Caller, length pre + length xs)
        = Some (h1 (Scratch := []))
    \<and> range_of (h1 (Scratch := [])) (Caller, length pre) (Caller, length pre + length xs)
        = rev xs
    \<and> (strict_weak_order cmp \<longrightarrow> sorted_wrt (\<lambda>a b. \<not> cmp b a) (rev xs))"
proof -
  let ?first = "(Caller, length pre)" and ?last = "(Caller, length pre + length xs)"
  define h0 where "h0 = h (Scratch := new_array uninit (length xs))"
  define h1 where "h1 = h0 (Caller := pre @ rev xs @ post)"
  note nr = natural_runs_descending [OF assms(1,2)]
  have h0C: "h0 Caller = pre @ xs @ post"
    using assms(4) by (simp add: h0_def)
  from build_run_size_queue_correct [where h = h0 and b = Caller and pre = pre and xs = xs
      and post = post and cmp = cmp, OF h0C assms(2,3)]
  obtain q where b: "build_run_size_queue cmp h0 ?first ?last = Some (h1, q)"
    and qi: "queue_inv q" and pq: "pending q = [run_len xs]"
    by (auto simp: nr h1_def)
  have "unat (queue_size q) = 1"
    using length_pending [of q] pq by (simp add: queue_size_def)
  then have qs: "queue_size q = 1"
    by (simp add: word_unat_eq_iff)
  define st0 where "st0 = initial_state h1 q ?first ?last (Scratch, 0)"
  have st0: "st0 = \<lparr>heap = h1, queue = q, source = ?first, target = (Scratch, 0),
      runs_left = 1, offset = 0\<rparr>"
    by (simp add: st0_def initial_state_def qs get_pass_amount_1)
  have qs0: "queue_size (queue st0) = 1"
    by (simp add: st0 qs)
  have tr: "merge_trace cmp st0 = [st0]"
    by (subst merge_trace.simps) (simp add: qs0)
  have lp: "merge_loop cmp st0 = st0"
    by (subst merge_loop.simps) (simp add: qs0)
  have n2: "\<not> length xs < 2"
    using assms(2) by simp
  have impl: "natural_merge_sort_impl cmp h0 ?first ?last (Scratch, 0) = Some h1"
    using n2 assms(3)
    by (simp add: natural_merge_sort_impl_def distance_def of_nat_less_2 b st0_def [symmetric] lp)
       (simp add: st0)
  have top: "natural_merge_sort uninit cmp h ?first ?last = Some (h1 (Scratch := []))"
    using n2 assms(3)
    by (simp add: natural_merge_sort_def distance_def of_nat_less_2 unat_of_nat
        h0_def [symmetric] impl)
  have h1C: "(h1 (Scratch := [])) Caller = pre @ rev xs @ post"
    by (simp add: h1_def)
  have rg: "range_of (h1 (Scratch := [])) ?first ?last = rev xs"
    using range_of_app [where h = "h1 (Scratch := [])" and b = Caller and pre = pre
        and X = "rev xs" and post = post, OF h1C] by simp
  have srt: "sorted_wrt (\<lambda>a b. \<not> cmp b a) (rev xs)" if swo: "strict_weak_order cmp"
  proof -
    have "sorted_wrt (\<lambda>a b. cmp b a) xs"
      using successively_descending [OF swo assms(1)] .
    then have "stable_sorted cmp xs = rev xs"
      by (rule stable_sorted_rev)
    then show ?thesis
      using non_decreasing_stable_sorted [OF swo, of xs] by (simp add: non_decreasing_def)
  qed
  have sc: "h1 Scratch = new_array uninit (length xs)"
    by (simp add: h1_def h0_def)
  show ?thesis
    using b qs tr lp impl top rg srt sc st0
    by (intro exI [of _ h0] exI [of _ h1] exI [of _ q] exI [of _ st0])
       (simp add: h0_def h1_def get_pass_amount_1 st0_def)
qed

theorem single_descending_run_no_merge_witness:
  "successively (\<lambda>a b. b < a) [3, 2, 1 :: nat] \<and> 2 \<le> length [3, 2, 1 :: nat]
   \<and> length [3, 2, 1 :: nat] < 2 ^ 64
   \<and> caller_heap [3, 2, 1 :: nat] Caller = [] @ [3, 2, 1] @ []
   \<and> (\<exists>h'. natural_merge_sort zero_fill (<) (caller_heap [3, 2, 1 :: nat]) (Caller, 0)
          (Caller, 3) = Some h'
        \<and> range_of h' (Caller, 0) (Caller, 3) = [1, 2, 3])"
proof -
  have a: "successively (\<lambda>a b. b < a) [3, 2, 1 :: nat]" "2 \<le> length [3, 2, 1 :: nat]"
    "length [3, 2, 1 :: nat] < 2 ^ 64"
    by simp_all
  from single_descending_run_no_merge [where cmp = "(<) :: nat \<Rightarrow> nat \<Rightarrow> bool"
      and xs = "[3, 2, 1]" and h = "caller_heap [3, 2, 1]" and pre = "[]" and post = "[]"
      and uninit = zero_fill, OF a caller_heap_app]
  show ?thesis
    using a by (auto simp: numeral_3_eq_3 caller_heap_def)
qed

lemma zigzag_scan:
  assumes "k < 2 ^ 62"
  shows "scanned_room (<) (concat (replicate k [Suc 0, 0]) @ [0])
    = Some (Suc k, 2 ^ ceillog2 (max (Suc k) 256))"
proof -
  let ?xs = "concat (replicate k [Suc 0, 0]) @ [0 :: nat]"
  have len: "length ?xs = 2 * k + 1"
    by (simp add: length_concat_replicate)
  have n2: "2 \<le> length ?xs \<or> k = 0"
    using len by linarith
  have n64: "length ?xs < 2 ^ 64"
    using assms len by simp
  show ?thesis
  proof (cases "k = 0")
    case True
    have "scanned_room (<) [0 :: nat] = Some (Suc 0, 256)"
      by code_simp
    moreover have "(2 :: nat) ^ ceillog2 256 = 256"
      using ceillog2_2_power [of 8] by simp
    ultimately show ?thesis
      using True by simp
  next
    case False
    with n2 have n2': "2 \<le> length ?xs"
      by simp
    from build_run_size_queue_correct [where h = "caller_heap ?xs" and b = Caller
        and pre = "[]" and xs = ?xs and post = "[]" and cmp = "(<)", OF caller_heap_app n2' n64]
    obtain q where q: "build_run_size_queue (<) (caller_heap ?xs) (Caller, 0) (Caller, length ?xs)
        = Some ((caller_heap ?xs) (Caller := concat (map (ascending_form (<))
            (natural_runs (<) ?xs))), q)"
      "pending q = map run_len (natural_runs (<) ?xs)"
      "capacity q = 2 ^ ceillog2 (max (length ?xs div 2 + 1) 256)"
      by auto
    have "unat (queue_size q) = length (natural_runs (<) ?xs)"
      using length_pending [of q] by (simp add: q(2) queue_size_def)
    then have sz: "unat (queue_size q) = Suc k"
      by (simp add: natural_runs_zigzag)
    have "length ?xs div 2 + 1 = Suc k"
      using len by simp
    then have cap: "capacity q = 2 ^ ceillog2 (max (Suc k) 256)"
      by (simp only: q(3))
    show ?thesis
      by (simp only: scanned_room_def q(1)) (simp add: sz cap)
  qed
qed

text \<open>
  Claim C8, as stated: refuted. On the 511 elements \<open>1, 0, 1, 0, \<dots>, 1, 0, 0\<close> under the
  ascending comparator the scanner finds 255 descending runs of two elements and one last
  element; the queue is built for \<open>511 div 2 + 1 = 256\<close> lengths and holds 256 lengths
  right after the scan, so its capacity is not one greater than the number of pending
  lengths.
\<close>

theorem queue_capacity_counterexample:
  "scanned_room (<) (concat (replicate 255 [1, 0]) @ [0 :: nat]) = Some (256, 256)"
proof -
  have "(2 :: nat) ^ ceillog2 256 = 256"
    using ceillog2_2_power [of 8] by simp
  with zigzag_scan [of 255] show ?thesis
    by simp
qed

text \<open>
  Claim C8, amended. Throughout \<open>natural_merge_sort_impl\<close> on a range of \<open>n \<ge> 2\<close> elements,
  which is where the sequential sort uses the queue, the capacity of the queue is a power
  of two that is at least the number of pending lengths: right after the scan that number
  is at most \<open>n div 2 + 1\<close>, which is at most the capacity; every call of \<open>enqueue\<close> and of
  \<open>dequeue\<close> in the scan and in the merge loop is made on a queue of that capacity that
  holds no more lengths than the queue held right after the scan; every call of \<open>enqueue\<close>
  finds fewer pending lengths than the capacity and writes inside the array, every call of
  \<open>dequeue\<close> finds a pending length and reads inside the array; and from one round of the
  merge loop to the next the number of pending lengths decreases.
\<close>

theorem queue_calls_safe:
  assumes "h b = pre @ xs @ post" and "2 \<le> length xs" and "length xs < 2 ^ 64"
  shows "\<exists>h1 q k.
      build_run_size_queue cmp h (b, length pre) (b, length pre + length xs) = Some (h1, q)
    \<and> capacity q = 2 ^ k
    \<and> unat (queue_size q) \<le> length xs div 2 + 1
    \<and> length xs div 2 + 1 \<le> capacity q
    \<and> list_all safe_call (sort_calls cmp h (b, length pre) (b, length pre + length xs) buffer)
    \<and> list_all (\<lambda>c. capacity (call_queue c) = capacity q
          \<and> unat (queue_size (call_queue c)) \<le> unat (queue_size q))
        (sort_calls cmp h (b, length pre) (b, length pre + length xs) buffer)
    \<and> sorted_wrt (\<lambda>s t. unat (queue_size (queue t)) < unat (queue_size (queue s)))
        (merge_trace cmp
          (initial_state h1 q (b, length pre) (b, length pre + length xs) buffer))"
proof -
  let ?first = "(b, length pre)" and ?last = "(b, length pre + length xs)"
  let ?k = "ceillog2 (max (length xs div 2 + 1) 256)"
  from build_run_size_queue_correct [where h = h and b = b and pre = pre and xs = xs
      and post = post and cmp = cmp, OF assms]
  obtain h1 q where q: "build_run_size_queue cmp h ?first ?last = Some (h1, q)"
    "pending q = map run_len (natural_runs cmp xs)" "capacity q = 2 ^ ?k"
    by blast
  have sz: "unat (queue_size q) = length (natural_runs cmp xs)"
    using length_pending [of q] by (simp add: q(2) queue_size_def)
  have "length (natural_runs cmp xs) \<le> (length xs + 1) div 2"
    by (rule length_natural_runs)
  then have le: "unat (queue_size q) \<le> length xs div 2 + 1"
    using sz by linarith
  have "max (length xs div 2 + 1) 256 \<le> capacity q"
    unfolding q(3) by (rule le_two_power_ceillog2)
  then have cap: "length xs div 2 + 1 \<le> capacity q"
    by simp
  note w = sort_calls_within [where h = h and b = b and pre = pre and xs = xs and post = post
      and cmp = cmp and buffer = buffer, OF assms]
  have s1: "list_all safe_call (sort_calls cmp h ?first ?last buffer)"
    using w by (auto simp: list_all_iff call_within_def)
  have s2: "list_all (\<lambda>c. capacity (call_queue c) = capacity q
      \<and> unat (queue_size (call_queue c)) \<le> unat (queue_size q))
      (sort_calls cmp h ?first ?last buffer)"
    using w sz by (auto simp: list_all_iff call_within_def q(3) queue_size_def)
  note s3 = merge_trace_decreasing [of cmp "initial_state h1 q ?first ?last buffer"]
  show ?thesis
    by (intro exI [of _ h1] exI [of _ q] exI [of _ ?k] conjI) (fact q(1) q(3) le cap s1 s2 s3)+
qed

theorem queue_calls_safe_witness:
  "caller_heap [3, 1, 2 :: nat] Caller = [] @ [3, 1, 2] @ []
   \<and> 2 \<le> length [3, 1, 2 :: nat] \<and> length [3, 1, 2 :: nat] < 2 ^ 64
   \<and> list_all safe_call
       (sort_calls (<) (caller_heap [3, 1, 2 :: nat]) (Caller, 0) (Caller, 3) (Scratch, 0))"
proof -
  have l: "2 \<le> length [3, 1, 2 :: nat]" "length [3, 1, 2 :: nat] < 2 ^ 64"
    by simp_all
  have n: "length [3, 1, 2 :: nat] = 3" "length ([] :: nat list) = 0"
    by simp_all
  note t = queue_calls_safe [where cmp = "(<) :: nat \<Rightarrow> nat \<Rightarrow> bool"
      and h = "caller_heap [3, 1, 2]" and b = Caller and pre = "[]" and xs = "[3, 1, 2]"
      and post = "[]" and buffer = "(Scratch, 0)", OF caller_heap_app l]
  from t [unfolded n] l show ?thesis
    by (auto simp: caller_heap_def)
qed

text \<open>
  Claim C9. For every run count \<open>r \<ge> 1\<close>, a 64-bit unsigned value,
  \<open>get_pass_amount r\<close> is the ceiling of the binary logarithm of \<open>r\<close>; it is also the
  least \<open>k\<close> with \<open>r \<le> 2 ^ k\<close>. In particular \<open>get_pass_amount 1 = 0\<close>: an input that
  is a single run needs no merge pass.
\<close>

theorem get_pass_amount_ceil_log2:
  "1 \<le> r \<Longrightarrow>
     unat (get_pass_amount r) = nat \<lceil>log 2 (real (unat r))\<rceil>
     \<and> unat r \<le> 2 ^ unat (get_pass_amount r)
     \<and> (\<forall>k. unat r \<le> 2 ^ k \<longrightarrow> unat (get_pass_amount r) \<le> k)
     \<and> get_pass_amount 1 = 0"
proof -
  assume r: "1 \<le> r"
  then have u: "0 < unat r"
    by (simp add: word_le_nat_alt)
  have c: "unat (get_pass_amount r) = ceillog2 (unat r)"
    using r by (rule get_pass_amount_ceillog2)
  have z: "unat (get_pass_amount 1) = 0"
    by (simp add: unat_get_pass_amount floorlog_def)
  have l: "\<forall>k. unat r \<le> 2 ^ k \<longrightarrow> ceillog2 (unat r) \<le> k"
    using u by (simp add: ceillog2_le_iff)
  have e: "ceillog2 (unat r) = nat \<lceil>log 2 (real (unat r))\<rceil>"
    using u by (simp add: ceillog2_def)
  have p: "unat r \<le> 2 ^ ceillog2 (unat r)"
    by (rule le_two_power_ceillog2)
  from z have z': "get_pass_amount 1 = 0"
    by (simp add: unat_eq_zero)
  from c e p l z' show ?thesis
    by simp
qed

theorem get_pass_amount_ceil_log2_witness:
  "(1 :: size_t) \<le> 5
     \<and> unat (get_pass_amount 5) = nat \<lceil>log 2 (real (unat (5 :: size_t)))\<rceil>
     \<and> unat (get_pass_amount 5) = 3
     \<and> unat (5 :: size_t) \<le> 2 ^ unat (get_pass_amount 5)
     \<and> get_pass_amount 1 = 0"
proof -
  have h: "(1 :: size_t) \<le> 5"
    by simp
  have v: "get_pass_amount 5 = 3"
    by (simp add: get_pass_amount_def leading_zeros_def leading_zeros_loop.simps)
  from get_pass_amount_ceil_log2 [OF h] h v show ?thesis
    by simp
qed

end
